theory Spec2Isabelle
  imports Main
begin

section \<open>Errors\<close>

text \<open>
  Values that the JavaScript code can throw.  \<open>TypeError\<close> is what the runtime throws
  when a property of \<open>undefined\<close> is read; \<open>Thrown\<close> stands for whatever a
  caller-supplied predicate throws.
\<close>

datatype error = TypeError | Thrown string

section \<open>Time (models/time)\<close>

text \<open>
  Modelled from the spec: the class \<open>Time\<close> of models/time is not among the sources.
  Spec 3: a value with four integer components.  The field names are those of
  \<open>TimeObject\<close> in the source; the constructor takes them in the order seconds,
  minutes, hours, days (see \<open>new Time(obj._seconds, ...)\<close> in the tracking selector).
\<close>

record Time =
  seconds :: int
  minutes :: int
  hours :: int
  days :: int

text \<open>
  Modelled from the spec: the constructor of \<open>Time\<close> is not among the sources.  Spec 4.4
  (a): construction from explicit component integers.
\<close>

definition new_Time :: "int \<Rightarrow> int \<Rightarrow> int \<Rightarrow> int \<Rightarrow> Time" where
  "new_Time s m h d = \<lparr>seconds = s, minutes = m, hours = h, days = d\<rparr>"

text \<open>
  Modelled from the spec: \<open>new Time()\<close> without arguments, the value that spec 4.4 and 7
  name as the fallback: the zero duration.
\<close>

definition Time_zero :: Time where
  "Time_zero = new_Time 0 0 0 0"

text \<open>
  Modelled from the spec: \<open>Time.add\<close> of models/time is not among the sources.  Spec 4.4:
  component-wise addition with carry: seconds overflow (60 or more) carries into minutes,
  minutes into hours, hours (24 or more) into days; days accumulate without upper bound.
  The source calls it for its effect on the receiver (\<open>this.actualTimes.add(elapsedTime)\<close>),
  so the model returns the receiver's new value.
\<close>

definition Time_add :: "Time \<Rightarrow> Time \<Rightarrow> Time" where
  "Time_add a b =
     (let s = seconds a + seconds b;
          m = minutes a + minutes b + s div 60;
          h = hours a + hours b + m div 60;
          d = days a + days b + h div 24
      in \<lparr>seconds = s mod 60, minutes = m mod 60, hours = h mod 24, days = d\<rparr>)"

text \<open>
  Modelled from the spec: \<open>Time.parseMs\<close> of models/time is not among the sources.
  Spec 4.4 (c): a millisecond count is normalised by integer division, milliseconds to
  minutes, the remainder discounted (no sub-minute precision); spec 8:
  \<open>parseMs(90000)\<close> has one minute and no seconds.
\<close>

definition Time_parseMs :: "int \<Rightarrow> Time" where
  "Time_parseMs ms =
     (let m = ms div 60000
      in \<lparr>seconds = 0, minutes = m mod 60, hours = (m div 60) mod 24, days = m div 1440\<rparr>)"

section \<open>TodoItem (src/models/todoItem.ts)\<close>

datatype TodoState = STOP | RUNNING | COMPLETE

text \<open>
  \<open>actualTimes\<close> is declared \<open>Time\<close>, but a field that was never assigned reads as
  \<open>undefined\<close>: the model has \<open>None\<close> for it.
\<close>

text \<open>The field \<open>id\<close> of the source is \<open>itemId\<close> here (\<open>id\<close> is the identity function of HOL).\<close>

record TodoItem =
  itemId :: nat
  title :: string
  todoState :: TodoState
  estimatedTimes :: Time
  actualTimes :: "Time option"
  trackingStartTime :: int

text \<open>The static counter \<open>TodoItem.taskId\<close> is passed in and returned.\<close>

definition getId :: "nat \<Rightarrow> nat \<times> nat" where
  "getId taskId = (let taskId' = taskId + 1 in (taskId', taskId'))"

text \<open>The constructor assigns five of the six fields; \<open>actualTimes\<close> is not among them.\<close>

definition new_TodoItem :: "string \<Rightarrow> Time \<Rightarrow> nat \<Rightarrow> TodoItem \<times> nat" where
  "new_TodoItem ttl time taskId =
     (let (i, taskId') = getId taskId
      in (\<lparr>itemId = i, title = ttl, todoState = STOP, estimatedTimes = time,
            actualTimes = None, trackingStartTime = 0\<rparr>, taskId'))"

text \<open>
  \<open>TodoItem.parseTime\<close> and \<open>TodoItem.parse\<close>.  The regular expressions belong to the
  JavaScript runtime and \<open>Time.parseStr\<close> to models/time; they are parameters:
  \<open>todoRegexp\<close> gives the groups 2 and 3 of a match (the third may be undefined),
  \<open>timeRegexp\<close> gives group 1 of a match, and \<open>None\<close> stands for no match.  The two
  warnings that the source logs are left out: nothing here reads the log.
\<close>

definition parseTime :: "(string option \<Rightarrow> string option) \<Rightarrow> (string \<Rightarrow> Time) \<Rightarrow> string option \<Rightarrow> Time" where
  "parseTime timeRegexp parseStr todoStr =
     (case timeRegexp todoStr of
        Some m1 \<Rightarrow> if m1 \<noteq> [] then parseStr m1 else Time_zero
      | None \<Rightarrow> Time_zero)"

definition parse ::
  "(string \<Rightarrow> (string \<times> string option) option) \<Rightarrow> (string option \<Rightarrow> string option) \<Rightarrow>
   (string \<Rightarrow> Time) \<Rightarrow> string \<Rightarrow> nat \<Rightarrow> TodoItem \<times> nat" where
  "parse todoRegexp timeRegexp parseStr todoStr taskId =
     (case todoRegexp todoStr of
        Some (ttl, timeStr) \<Rightarrow> new_TodoItem ttl (parseTime timeRegexp parseStr timeStr) taskId
      | None \<Rightarrow> new_TodoItem [] Time_zero taskId)"

text \<open>\<open>now\<close> is the value of \<open>Date.now()\<close> at the call.\<close>

definition trackingStart :: "int \<Rightarrow> TodoItem \<Rightarrow> TodoItem" where
  "trackingStart now t = t\<lparr>trackingStartTime := now, todoState := RUNNING\<rparr>"

text \<open>
  \<open>this.actualTimes.add(elapsedTime)\<close> throws a TypeError when \<open>actualTimes\<close> is
  undefined; the two assignments after it are then not reached.
\<close>

definition trackingEnd :: "int \<Rightarrow> TodoItem \<Rightarrow> error + TodoItem" where
  "trackingEnd now t =
     (let elapsedTimeMs = now - trackingStartTime t;
          elapsedTime = Time_parseMs elapsedTimeMs
      in case actualTimes t of
           None \<Rightarrow> Inl TypeError
         | Some a \<Rightarrow>
             Inr (t\<lparr>actualTimes := Some (Time_add a elapsedTime),
                    todoState := STOP, trackingStartTime := 0\<rparr>))"

definition complete :: "TodoItem \<Rightarrow> TodoItem" where
  "complete t = t\<lparr>todoState := COMPLETE\<rparr>"

section \<open>Tracking records restored on load (the savedTrackingStateList selector)\<close>

text \<open>
  A stored record: \<open>elapsedTime\<close> comes back from storage as a plain \<open>TimeObject\<close>, which
  has the same four fields as \<open>Time\<close>.
\<close>

record TrackingState =
  line :: int
  isTracking :: bool
  trackingStartTime :: int
  elapsedTime :: Time

definition resume :: "int \<Rightarrow> TrackingState \<Rightarrow> TrackingState" where
  "resume now tracking =
     (let obj = elapsedTime tracking;
          tracking1 = tracking\<lparr>elapsedTime :=
                        new_Time (seconds obj) (minutes obj) (hours obj) (days obj)\<rparr>
      in if isTracking tracking1
         then (let elapsedTimeMs = now - TrackingState.trackingStartTime tracking1;
                   elapsedTime = Time_parseMs elapsedTimeMs
               in tracking1\<lparr>elapsedTime := Time_add (TrackingState.elapsedTime tracking1) elapsedTime\<rparr>)
         else tracking1)"

text \<open>\<open>Storage.get\<close> gives \<open>undefined\<close> (\<open>None\<close>) when nothing was stored.\<close>

definition savedTrackingStateList :: "int \<Rightarrow> TrackingState list option \<Rightarrow> TrackingState list" where
  "savedTrackingStateList now trackings =
     (case trackings of None \<Rightarrow> [] | Some ts \<Rightarrow> map (resume now) ts)"

section \<open>The outline tree (models/node)\<close>

subsection \<open>Objects and references\<close>

text \<open>
  Nodes and tasks are objects with identity: \<open>clone\<close> is about which objects are shared,
  and \<open>filter\<close> and \<open>replace\<close> assign to fields of nodes reached through \<open>parent\<close>.
  The model keeps them in a store: an address is a reference, \<open>nodes\<close> and \<open>tasks\<close>
  give the object at an address, \<open>next_node\<close> and \<open>next_task\<close> are the addresses the
  next \<open>new\<close> returns (every object in use lies below them).  \<open>warnings\<close> is what
  \<open>Log.w\<close> has received.  A \<open>children\<close> array is a list value: none of the functions
  modelled here changes an array in place, they assign new arrays.
\<close>

type_synonym addr = nat

datatype NodeType = TASK | HEADING | OTHER | ROOT

text \<open>
  Modelled from the spec: the class \<open>Task\<close> of models/task is not among the sources.
  Spec 3 lists its attributes; the tree functions only copy it.
\<close>

record Task =
  taskId :: nat
  taskTitle :: string
  completion :: bool
  estimatedTime :: Time
  actualTime :: Time
  taskTrackingStartTime :: int
  indent :: int

text \<open>\<open>data: Task | string\<close>: a reference to a task object, or a string value.\<close>

datatype data = TaskData addr | TextData string

text \<open>
  The field \<open>id\<close> of the source is \<open>nodeId\<close> here.  \<open>parent\<close> and \<open>collapsed\<close> may
  be undefined (\<open>None\<close>).  \<open>level\<close> exists on a \<open>HeadingNode\<close> only: it is \<open>None\<close>
  on an object of class \<open>Node\<close>.
\<close>

record Node =
  type :: NodeType
  line :: int
  data :: data
  parent :: "addr option"
  children :: "addr list"
  collapsed :: "bool option"
  nodeId :: string
  level :: "int option"

record state =
  nodes :: "addr \<Rightarrow> Node"
  next_node :: addr
  tasks :: "addr \<Rightarrow> Task"
  next_task :: addr
  warnings :: "error list"

definition set_parent :: "state \<Rightarrow> addr \<Rightarrow> addr option \<Rightarrow> state" where
  "set_parent s a p = s\<lparr>nodes := (nodes s)(a := (nodes s a)\<lparr>parent := p\<rparr>)\<rparr>"

definition set_children :: "state \<Rightarrow> addr \<Rightarrow> addr list \<Rightarrow> state" where
  "set_children s a cs = s\<lparr>nodes := (nodes s)(a := (nodes s a)\<lparr>children := cs\<rparr>)\<rparr>"

definition set_line :: "state \<Rightarrow> addr \<Rightarrow> int \<Rightarrow> state" where
  "set_line s a l = s\<lparr>nodes := (nodes s)(a := (nodes s a)\<lparr>line := l\<rparr>)\<rparr>"


definition set_data :: "state \<Rightarrow> addr \<Rightarrow> data \<Rightarrow> state" where
  "set_data s a d = s\<lparr>nodes := (nodes s)(a := (nodes s a)\<lparr>data := d\<rparr>)\<rparr>"

text \<open>
  Modelled from the spec: \<open>Log\<close> of services/log is not among the sources.  The spec
  says of it only that the error is logged; the model appends it to \<open>warnings\<close>.
\<close>

definition Log_w :: "error \<Rightarrow> state \<Rightarrow> state" where
  "Log_w e s = s\<lparr>warnings := warnings s @ [e]\<rparr>"

text \<open>
  A predicate \<open>(n: Node) => boolean\<close> is handed a node, can read every object reachable
  from it, and returns a boolean or throws.
\<close>

type_synonym predicate = "state \<Rightarrow> addr \<Rightarrow> error + bool"

subsection \<open>clone\<close>

text \<open>
  Modelled from the spec: \<open>Task.clone\<close> of models/task is not among the sources.
  Spec 3 and 4.1: a task payload is deep-cloned, a new object with the same contents.
\<close>

definition Task_clone :: "state \<Rightarrow> addr \<Rightarrow> state \<times> addr" where
  "Task_clone s t =
     (let t' = next_task s
      in (s\<lparr>tasks := (tasks s)(t' := tasks s t), next_task := Suc t'\<rparr>, t'))"

text \<open>
  \<open>Node.clone\<close>.  The constructor's random id is overwritten at once by
  \<open>c.id = this.id\<close>, and its empty \<open>children\<close> by a copy of the receiver's array.
\<close>

definition Node_clone :: "state \<Rightarrow> addr \<Rightarrow> state \<times> addr" where
  "Node_clone s this =
     (let n = nodes s this;
          c = next_node s;
          s1 = s\<lparr>nodes := (nodes s)(c :=
                 \<lparr>type = type n, line = line n, data = data n, parent = parent n,
                  children = children n, collapsed = collapsed n, nodeId = nodeId n,
                  level = None\<rparr>),
                next_node := Suc c\<rparr>
      in case data n of
           TaskData t \<Rightarrow> (let (s2, t') = Task_clone s1 t in (set_data s2 c (TaskData t'), c))
         | TextData _ \<Rightarrow> (s1, c))"

text \<open>\<open>HeadingNode.clone\<close>: the data of a heading is a string and is passed on as it is.\<close>

definition HeadingNode_clone :: "state \<Rightarrow> addr \<Rightarrow> state \<times> addr" where
  "HeadingNode_clone s this =
     (let n = nodes s this;
          c = next_node s
      in (s\<lparr>nodes := (nodes s)(c :=
             \<lparr>type = type n, line = line n, data = data n, parent = parent n,
              children = children n, collapsed = collapsed n, nodeId = nodeId n,
              level = level n\<rparr>),
            next_node := Suc c\<rparr>, c))"

text \<open>The call \<open>a.clone()\<close>: the method of the object's class.\<close>

definition clone_method :: "state \<Rightarrow> addr \<Rightarrow> state \<times> addr" where
  "clone_method s a =
     (case level (nodes s a) of None \<Rightarrow> Node_clone s a | Some _ \<Rightarrow> HeadingNode_clone s a)"

text \<open>
  The module's \<open>clone(nodes, parent)\<close>.  The recursion follows \<open>children\<close> through the
  store and need not end (a node that is its own descendant); \<open>fuel\<close> bounds the depth,
  and \<open>None\<close> is the call that has not returned within it.
\<close>

fun clone :: "nat \<Rightarrow> state \<Rightarrow> addr list \<Rightarrow> addr option \<Rightarrow> (state \<times> addr list) option" where
  "clone fuel s [] p = Some (s, [])"
| "clone 0 s (a # as) p = None"
| "clone (Suc fuel) s (a # as) p =
     (let (s1, b) = clone_method s a;
          s2 = set_parent s1 b p
      in case clone fuel s2 (children (nodes s2 b)) (Some b) of
           None \<Rightarrow> None
         | Some (s3, cs) \<Rightarrow>
             (let s4 = set_children s3 b cs
              in case clone (Suc fuel) s4 as p of
                   None \<Rightarrow> None
                 | Some (s5, bs) \<Rightarrow> Some (s5, b # bs)))"

subsection \<open>find\<close>

text \<open>
  The body of the \<open>try\<close> block of \<open>Node.find\<close>: the loop over the queue.  One unit of
  fuel per node taken from the queue.
\<close>

fun find_loop :: "nat \<Rightarrow> state \<Rightarrow> predicate \<Rightarrow> addr list \<Rightarrow> (error + addr option) option" where
  "find_loop fuel s P [] = Some (Inr None)"
| "find_loop 0 s P (elm # queue) = None"
| "find_loop (Suc fuel) s P (elm # queue) =
     (case P s elm of
        Inl e \<Rightarrow> Some (Inl e)
      | Inr True \<Rightarrow> Some (Inr (Some elm))
      | Inr False \<Rightarrow> find_loop fuel s P (queue @ children (nodes s elm)))"

text \<open>\<open>Node.find\<close>: what the loop throws is logged, and the result is then \<open>null\<close>.\<close>

definition find_node :: "nat \<Rightarrow> state \<Rightarrow> addr \<Rightarrow> predicate \<Rightarrow> (state \<times> addr option) option" where
  "find_node fuel s this P =
     (case find_loop fuel s P [this] of
        None \<Rightarrow> None
      | Some (Inl e) \<Rightarrow> Some (Log_w e s, None)
      | Some (Inr r) \<Rightarrow> Some (s, r))"

subsection \<open>flat (models/flattenedNode)\<close>

text \<open>
  Modelled from the spec: \<open>flat\<close> of models/flattenedNode is not among the sources.
  Spec 4.2: a depth-first pre-order traversal that records each node's depth; the root is
  excluded, its direct children have depth 0.
\<close>

fun flat_nodes :: "nat \<Rightarrow> state \<Rightarrow> addr list \<Rightarrow> nat \<Rightarrow> (addr \<times> nat) list option" where
  "flat_nodes fuel s [] depth = Some []"
| "flat_nodes 0 s (c # cs) depth = None"
| "flat_nodes (Suc fuel) s (c # cs) depth =
     (case flat_nodes fuel s (children (nodes s c)) (depth + 1) of
        None \<Rightarrow> None
      | Some sub \<Rightarrow>
          (case flat_nodes (Suc fuel) s cs depth of
             None \<Rightarrow> None
           | Some rest \<Rightarrow> Some ((c, depth) # sub @ rest)))"

definition flat :: "nat \<Rightarrow> state \<Rightarrow> addr \<Rightarrow> (addr \<times> nat) list option" where
  "flat fuel s root = flat_nodes fuel s (children (nodes s root)) 0"

subsection \<open>filter\<close>

text \<open>The first loop of \<open>Node.filter\<close>: the nodes of the clone in breadth-first order.\<close>

fun bfs_loop :: "nat \<Rightarrow> state \<Rightarrow> addr list \<Rightarrow> addr list \<Rightarrow> addr list option" where
  "bfs_loop fuel s [] flatten = Some flatten"
| "bfs_loop 0 s (elm # queue) flatten = None"
| "bfs_loop (Suc fuel) s (elm # queue) flatten =
     bfs_loop fuel s (queue @ children (nodes s elm)) (flatten @ [elm])"

text \<open>
  The callback of \<open>reverse.forEach\<close>.  It throws what the predicate throws, and a
  TypeError at \<open>parent.children\<close> when \<open>n.parent\<close> is undefined.
\<close>

definition remove_node :: "predicate \<Rightarrow> state \<Rightarrow> addr \<Rightarrow> error + state" where
  "remove_node P s n =
     (case P s n of
        Inl e \<Rightarrow> Inl e
      | Inr match \<Rightarrow>
          if \<not> match \<and> children (nodes s n) = []
          then (case parent (nodes s n) of
                  None \<Rightarrow> Inl TypeError
                | Some p \<Rightarrow>
                    Inr (set_children s p
                           (filter (\<lambda>c. nodeId (nodes s c) \<noteq> nodeId (nodes s n))
                              (children (nodes s p)))))
          else Inr s)"

text \<open>
  \<open>reverse.forEach\<close>: the first throw ends it; the assignments made before stay.
\<close>

fun forEach_remove :: "predicate \<Rightarrow> state \<Rightarrow> addr list \<Rightarrow> state \<times> error option" where
  "forEach_remove P s [] = (s, None)"
| "forEach_remove P s (n # ns) =
     (case remove_node P s n of
        Inl e \<Rightarrow> (s, Some e)
      | Inr s' \<Rightarrow> forEach_remove P s' ns)"

text \<open>\<open>flattenFiltered.forEach((f, index) => f.node.line = index + 1)\<close>.\<close>

fun update_lines :: "state \<Rightarrow> (addr \<times> nat) list \<Rightarrow> nat \<Rightarrow> state" where
  "update_lines s [] index = s"
| "update_lines s (f # fs) index =
     update_lines (set_line s (fst f) (int index + 1)) fs (index + 1)"

text \<open>
  \<open>Node.filter\<close>.  \<open>const [cloned] = clone([this])\<close> takes the first element; \<open>clone\<close>
  returns as many nodes as it is given (lemma \<open>clone_length\<close>), so the empty case is
  not reached.  Whatever the \<open>try\<close> block throws is logged and the clone is returned as
  it is at that moment; the line numbers are assigned only when nothing was thrown.
\<close>

definition filter_node :: "nat \<Rightarrow> state \<Rightarrow> addr \<Rightarrow> predicate \<Rightarrow> (state \<times> addr) option" where
  "filter_node fuel s this P =
     (case clone fuel s [this] None of
        None \<Rightarrow> None
      | Some (s1, []) \<Rightarrow> None
      | Some (s1, cloned # _) \<Rightarrow>
          (case bfs_loop fuel s1 [cloned] [] of
             None \<Rightarrow> None
           | Some flatten \<Rightarrow>
               (case forEach_remove P s1 (rev flatten) of
                  (s2, Some e) \<Rightarrow> Some (Log_w e s2, cloned)
                | (s2, None) \<Rightarrow>
                    (case flat fuel s2 cloned of
                       None \<Rightarrow> None
                     | Some flattenFiltered \<Rightarrow>
                         Some (update_lines s2 flattenFiltered 0, cloned)))))"

subsection \<open>replace\<close>


subsection \<open>Trees in the store\<close>

text \<open>
  A tree of addresses, and what it means for the store to hold it: every node's
  \<open>children\<close> are the roots of its subtrees.  Such a tree exists for a node exactly when
  following \<open>children\<close> from it always ends.
\<close>

datatype atree = AT addr "atree list"

fun troot :: "atree \<Rightarrow> addr" where
  "troot (AT a ts) = a"

fun tkids :: "atree \<Rightarrow> atree list" where
  "tkids (AT a ts) = ts"

fun rep :: "state \<Rightarrow> atree \<Rightarrow> bool" where
  "rep s (AT a ts) = (children (nodes s a) = map troot ts \<and> list_all (rep s) ts)"

text \<open>The nodes of a tree in depth-first pre-order, and their number.\<close>

fun addrs :: "atree \<Rightarrow> addr list" where
  "addrs (AT a ts) = a # concat (map addrs ts)"

fun tsize :: "atree \<Rightarrow> nat" where
  "tsize (AT a ts) = Suc (sum_list (map tsize ts))"

text \<open>Two trees of the same shape: the same number of children, position by position.\<close>

fun same_shape :: "atree \<Rightarrow> atree \<Rightarrow> bool" where
  "same_shape (AT a ts) (AT b us) = list_all2 same_shape ts us"

text \<open>
  The \<open>parent\<close> fields of a tree in the store: the root's is \<open>p\<close>, and every
  other node's is the node whose \<open>children\<close> holds it.
\<close>

fun parents_ok :: "state \<Rightarrow> addr option \<Rightarrow> atree \<Rightarrow> bool" where
  "parents_ok s p (AT a ts) = (parent (nodes s a) = p \<and> list_all (parents_ok s (Some a)) ts)"

text \<open>
  A node in use: its address has been allocated, and so has its task if its data is one;
  only an object of class \<open>Node\<close> carries a task (the data of a \<open>HeadingNode\<close> is
  declared \<open>string\<close>).
\<close>

definition node_ok :: "state \<Rightarrow> addr \<Rightarrow> bool" where
  "node_ok s a =
     (a < next_node s \<and>
      (case data (nodes s a) of
         TaskData t \<Rightarrow> t < next_task s \<and> level (nodes s a) = None
       | TextData _ \<Rightarrow> True))"

text \<open>The store holds the tree \<open>t\<close>, and its nodes are in use.\<close>

definition wf_tree :: "state \<Rightarrow> atree \<Rightarrow> bool" where
  "wf_tree s t = (rep s t \<and> list_all (node_ok s) (addrs t))"

text \<open>
  \<open>s'\<close> has every object of \<open>s\<close> as it is in \<open>s\<close>: the objects of \<open>s'\<close> that
  \<open>s\<close> does not have are new ones.
\<close>

definition extends :: "state \<Rightarrow> state \<Rightarrow> bool" where
  "extends s s' =
     (next_node s \<le> next_node s' \<and> next_task s \<le> next_task s' \<and>
      list_all (\<lambda>a. nodes s' a = nodes s a) [0..<next_node s] \<and>
      list_all (\<lambda>t. tasks s' t = tasks s t) [0..<next_task s])"

text \<open>
  Node \<open>b\<close> of \<open>s'\<close> is a copy of node \<open>a\<close> of \<open>s\<close>: the same type, line,
  collapsed flag, id and level; the same string, or a task object that \<open>s\<close> does not
  have, with the contents of the task of \<open>a\<close>.
\<close>

definition copy_of :: "state \<Rightarrow> state \<Rightarrow> addr \<Rightarrow> addr \<Rightarrow> bool" where
  "copy_of s s' a b =
     (let n = nodes s a; c = nodes s' b
      in type c = type n \<and> line c = line n \<and> collapsed c = collapsed n \<and>
         nodeId c = nodeId n \<and> level c = level n \<and>
         (case data n of
            TextData x \<Rightarrow> data c = TextData x
          | TaskData t \<Rightarrow>
              (case data c of
                 TaskData t' \<Rightarrow> next_task s \<le> t' \<and> t' < next_task s' \<and> tasks s' t' = tasks s t
               | TextData _ \<Rightarrow> False)))"

text \<open>
  Breadth-first order of a forest, first with the queue of the source, then as the spec
  words it: level by level, each level from left to right.
\<close>

function bfs_order :: "atree list \<Rightarrow> addr list" where
  "bfs_order [] = []"
| "bfs_order (t # ts) = troot t # bfs_order (ts @ tkids t)"
  by pat_completeness auto
termination
proof (relation "measure (\<lambda>ts. sum_list (map tsize ts))")
  show "wf (measure (\<lambda>ts. sum_list (map tsize ts)))" by simp
next
  fix t :: atree and ts
  show "(ts @ tkids t, t # ts) \<in> measure (\<lambda>ts. sum_list (map tsize ts))"
    by (cases t) simp
qed

function level_order :: "atree list \<Rightarrow> addr list" where
  "level_order ts = (if ts = [] then [] else map troot ts @ level_order (concat (map tkids ts)))"
  by pat_completeness auto
termination
proof (relation "measure (\<lambda>ts. sum_list (map tsize ts))")
  show "wf (measure (\<lambda>ts. sum_list (map tsize ts)))" by simp
next
  fix ts :: "atree list"
  assume ne: "ts \<noteq> []"
  have "sum_list (map tsize (concat (map tkids ts))) + length ts = sum_list (map tsize ts)"
  proof (induction ts)
    case Nil show ?case by simp
  next
    case (Cons t ts)
    then show ?case by (cases t) simp
  qed
  with ne show "(concat (map tkids ts), ts) \<in> measure (\<lambda>ts. sum_list (map tsize ts))"
    by (cases ts) auto
qed

declare level_order.simps [simp del]

text \<open>
  The first address of a list at which a predicate holds; an address at which the predicate
  throws before that ends the search with the error.
\<close>

fun scan :: "(addr \<Rightarrow> error + bool) \<Rightarrow> addr list \<Rightarrow> error + addr option" where
  "scan Q [] = Inr None"
| "scan Q (a # as) =
     (case Q a of
        Inl e \<Rightarrow> Inl e
      | Inr True \<Rightarrow> Inr (Some a)
      | Inr False \<Rightarrow> scan Q as)"

subsection \<open>What filter leaves\<close>

text \<open>
  The store \<open>s1\<close> after the nodes of \<open>R\<close> have been taken out of the \<open>children\<close> of
  the nodes of \<open>A\<close>, and the tree that is left of a tree then.
\<close>

definition pruned :: "state \<Rightarrow> addr list \<Rightarrow> addr set \<Rightarrow> state" where
  "pruned s1 A R =
     s1\<lparr>nodes := (\<lambda>x. if x \<in> set A
                      then (nodes s1 x)\<lparr>children := filter (\<lambda>c. c \<notin> R) (children (nodes s1 x))\<rparr>
                      else nodes s1 x)\<rparr>"

fun prune_tree :: "addr set \<Rightarrow> atree \<Rightarrow> atree" where
  "prune_tree R (AT a ts) = AT a (map (prune_tree R) (filter (\<lambda>k. troot k \<notin> R) ts))"

text \<open>
  The nodes \<open>A\<close> form a tree with root \<open>r\<close> in the store: the root has no parent, the
  children of a node are nodes of the tree, other than the root, with that node as their
  parent, and every node but the root is among the children of its parent.
\<close>

definition tree_struct :: "state \<Rightarrow> addr list \<Rightarrow> addr \<Rightarrow> bool" where
  "tree_struct s A r =
     (r \<in> set A \<and> parent (nodes s r) = None \<and>
      (\<forall>x\<in>set A. \<forall>c\<in>set (children (nodes s x)).
         c \<in> set A \<and> c \<noteq> r \<and> parent (nodes s c) = Some x) \<and>
      (\<forall>n\<in>set A. n \<noteq> r \<longrightarrow>
         (\<exists>p\<in>set A. parent (nodes s n) = Some p \<and> n \<in> set (children (nodes s p)))))"

text \<open>
  The pre-order list of the spec on a forest of address trees, with depths.
\<close>

fun flat_forest :: "atree list \<Rightarrow> nat \<Rightarrow> (addr \<times> nat) list" where
  "flat_forest [] d = []"
| "flat_forest (AT a ks # ts) d = (a, d) # flat_forest ks (d + 1) @ flat_forest ts d"

text \<open>The children of \<open>p\<close> that have the id of \<open>n\<close>: what the callback of filter removes.\<close>

definition same_id :: "state \<Rightarrow> addr \<Rightarrow> addr \<Rightarrow> addr set" where
  "same_id s1 p n = {c \<in> set (children (nodes s1 p)). nodeId (nodes s1 c) = nodeId (nodes s1 n)}"

text \<open>
  A predicate whose value at a node does not depend on any \<open>children\<close> field: the
  assignments that \<open>filter\<close> makes while it prunes do not change what it returns.
\<close>

definition children_blind :: "(state \<Rightarrow> addr \<Rightarrow> bool) \<Rightarrow> bool" where
  "children_blind P = (\<forall>s a cs x. P (set_children s a cs) x = P s x)"

text \<open>
  An order of visiting nodes in which no node comes twice and the children of a node come
  before the node; \<open>D\<close> are the nodes visited earlier.
\<close>

fun kids_first :: "state \<Rightarrow> addr set \<Rightarrow> addr list \<Rightarrow> bool" where
  "kids_first s1 D [] = True"
| "kids_first s1 D (n # ns) =
     (set (children (nodes s1 n)) \<subseteq> D \<and> n \<notin> D \<and> kids_first s1 (insert n D) ns)"

subsection \<open>An example document\<close>

text \<open>
  A root with a heading and a note; under the heading a task with a subtask.  One more
  node, at address 5, is in no tree: a node to put in the place of another.
\<close>

definition example_node :: "NodeType \<Rightarrow> int \<Rightarrow> data \<Rightarrow> addr option \<Rightarrow> addr list \<Rightarrow> string \<Rightarrow> int option \<Rightarrow> Node" where
  "example_node ty ln d p cs i lv =
     \<lparr>type = ty, line = ln, data = d, parent = p, children = cs, collapsed = None,
      nodeId = i, level = lv\<rparr>"

definition example_task :: "string \<Rightarrow> Task" where
  "example_task ttl = \<lparr>taskId = 1, taskTitle = ttl, completion = False,
     estimatedTime = Time_zero, actualTime = Time_zero, taskTrackingStartTime = 0, indent = 0\<rparr>"

definition example_state :: state where
  "example_state =
     \<lparr>nodes = (\<lambda>_. example_node OTHER 0 (TextData []) None [] [] None)
        (0 := example_node ROOT 0 (TextData []) None [1, 2] ''r'' None,
         1 := example_node HEADING 1 (TextData ''plan'') (Some 0) [3] ''a'' (Some 1),
         2 := example_node OTHER 4 (TextData ''note'') (Some 0) [] ''b'' None,
         3 := example_node TASK 2 (TaskData 0) (Some 1) [4] ''c'' None,
         4 := example_node TASK 3 (TaskData 1) (Some 3) [] ''d'' None,
         5 := example_node OTHER 0 (TextData ''new'') None [] ''n'' None),
      next_node = 6,
      tasks = (\<lambda>_. example_task [])(0 := example_task ''write'', 1 := example_task ''draft''),
      next_task = 2, warnings = []\<rparr>"

definition example_tree :: atree where
  "example_tree = AT 0 [AT 1 [AT 3 [AT 4 []]], AT 2 []]"

text \<open>Predicates on the example: the subtask, by its id.\<close>

definition is_subtask :: "state \<Rightarrow> addr \<Rightarrow> bool" where
  "is_subtask s a = (nodeId (nodes s a) = ''d'')"

text \<open>A predicate that holds nowhere.\<close>

definition nowhere :: "state \<Rightarrow> addr \<Rightarrow> bool" where
  "nowhere s a = False"

text \<open>A predicate that throws at the root and holds at the note.\<close>

definition throws_at_root :: predicate where
  "throws_at_root s a =
     (if nodeId (nodes s a) = ''r'' then Inl (Thrown ''boom'')
      else Inr (nodeId (nodes s a) = ''b''))"

text \<open>A predicate that throws at the subtask and holds nowhere.\<close>

definition throws_at_subtask :: predicate where
  "throws_at_subtask s a =
     (if nodeId (nodes s a) = ''d'' then Inl (Thrown ''boom'') else Inr False)"

section \<open>Properties of TodoItem\<close>

lemma trackingEnd_defined:
  "actualTimes t = Some a \<Longrightarrow>
   trackingEnd now t =
     Inr (t\<lparr>actualTimes := Some (Time_add a (Time_parseMs (now - TodoItem.trackingStartTime t))),
            todoState := STOP, TodoItem.trackingStartTime := 0\<rparr>)"
  by (simp add: trackingEnd_def)

lemma new_TodoItem_actualTimes: "actualTimes (fst (new_TodoItem ttl time n)) = None"
  by (simp add: new_TodoItem_def getId_def)

lemma parse_actualTimes: "actualTimes (fst (parse todoRegexp timeRegexp parseStr str n)) = None"
  by (simp add: parse_def new_TodoItem_actualTimes split: option.split)

text \<open>
  C4.  Stopping the tracking of a running item is meant to add the elapsed time to the
  item's actual time, to move the item to the stopped state and to reset
  \<open>trackingStartTime\<close> to 0.  The code at the item \<open>new TodoItem("a", new Time())\<close>,
  started at 1000 ms and stopped at 61000 ms: \<open>trackingEnd\<close> throws a TypeError, and the
  item stays RUNNING.  (On an item whose \<open>actualTimes\<close> has been assigned, the code
  does all of it: \<open>trackingEnd_defined\<close> above.)
\<close>

theorem C4_trackingEnd_fresh_running_item_throws:
  "todoState (trackingStart 1000 (fst (new_TodoItem ''a'' Time_zero 0))) = RUNNING \<and>
   trackingEnd 61000 (trackingStart 1000 (fst (new_TodoItem ''a'' Time_zero 0))) = Inl TypeError"
  by (simp add: trackingEnd_def trackingStart_def new_TodoItem_def getId_def)

text \<open>
  C8 as the spec states it: completing a task leaves its tracking state unchanged.
  In \<open>TodoItem\<close> the completion is a third value of the one state field, so completing a
  running item replaces RUNNING.
\<close>

theorem C8_complete_changes_state_counterexample:
  "todoState (complete (trackingStart 1000 (fst (new_TodoItem ''a'' Time_zero 0))))
     \<noteq> todoState (trackingStart 1000 (fst (new_TodoItem ''a'' Time_zero 0)))"
  by (simp add: complete_def trackingStart_def new_TodoItem_def getId_def)

text \<open>
  C8, amended: \<open>complete\<close> has no guard, it is defined in every state; it sets the state
  field to COMPLETE and changes no other field: \<open>trackingStartTime\<close>, the actual and
  estimated times, the title and the id are what they were, so no elapsed time is added
  and a running session's start point is kept.
\<close>

theorem C8_complete_sets_only_state:
  "todoState (complete t) = COMPLETE \<and>
   TodoItem.trackingStartTime (complete t) = TodoItem.trackingStartTime t \<and>
   actualTimes (complete t) = actualTimes t \<and>
   estimatedTimes (complete t) = estimatedTimes t \<and>
   title (complete t) = title t \<and>
   itemId (complete t) = itemId t \<and>
   complete (t\<lparr>todoState := st\<rparr>) = complete t"
  by (simp add: complete_def)

text \<open>
  C9.  The constructor leaves \<open>actualTimes\<close> undefined, and so does \<open>parse\<close>, which
  returns a constructed item on both of its paths; \<open>trackingEnd\<close> on such an item throws
  a TypeError, at once or after a \<open>trackingStart\<close>, whatever the clock says.
\<close>

theorem C9_fresh_item_trackingEnd_TypeError:
  "actualTimes (fst (new_TodoItem ttl time n)) = None \<and>
   actualTimes (fst (parse todoRegexp timeRegexp parseStr str n)) = None \<and>
   trackingEnd now (fst (new_TodoItem ttl time n)) = Inl TypeError \<and>
   trackingEnd now (fst (parse todoRegexp timeRegexp parseStr str n)) = Inl TypeError \<and>
   trackingEnd now (trackingStart now0 (fst (new_TodoItem ttl time n))) = Inl TypeError \<and>
   trackingEnd now (trackingStart now0 (fst (parse todoRegexp timeRegexp parseStr str n))) = Inl TypeError"
  by (simp add: trackingEnd_def trackingStart_def new_TodoItem_actualTimes parse_actualTimes)

text \<open>
  C10.  \<open>trackingStart\<close> has no guard: in every state it stores the clock value in
  \<open>trackingStartTime\<close> and sets the state to RUNNING, and nothing else changes.  The
  result does not depend on the start time or the state the item had, so a session that
  was running is forgotten: a later \<open>trackingEnd\<close> adds the time since the second start
  only.
\<close>

theorem C10_trackingStart_unguarded:
  "TodoItem.trackingStartTime (trackingStart now t) = now \<and>
   todoState (trackingStart now t) = RUNNING \<and>
   actualTimes (trackingStart now t) = actualTimes t \<and>
   estimatedTimes (trackingStart now t) = estimatedTimes t \<and>
   title (trackingStart now t) = title t \<and>
   itemId (trackingStart now t) = itemId t \<and>
   trackingStart now (t\<lparr>todoState := st, TodoItem.trackingStartTime := old\<rparr>) = trackingStart now t \<and>
   trackingEnd now2 (trackingStart now (trackingStart old (t\<lparr>actualTimes := Some a\<rparr>))) =
     Inr (t\<lparr>actualTimes := Some (Time_add a (Time_parseMs (now2 - now))),
            todoState := STOP, TodoItem.trackingStartTime := 0\<rparr>)"
  by (simp add: trackingStart_def trackingEnd_def)

section \<open>Properties of the tracking selector\<close>

lemma new_Time_same: "new_Time (seconds x) (minutes x) (hours x) (days x) = x"
  by (cases x) (simp add: new_Time_def)

lemma resume_eq:
  "resume now tr =
     tr\<lparr>elapsedTime :=
          if isTracking tr
          then Time_add (elapsedTime tr) (Time_parseMs (now - TrackingState.trackingStartTime tr))
          else elapsedTime tr\<rparr>"
  by (simp add: resume_def new_Time_same Let_def)

lemma parseMs_two_minutes:
  "Time_parseMs 120000 = \<lparr>seconds = 0, minutes = 2, hours = 0, days = 0\<rparr>"
  by (simp add: Time_parseMs_def)

lemma Time_add_zero_two_minutes:
  "Time_add \<lparr>seconds = 0, minutes = 0, hours = 0, days = 0\<rparr>
     \<lparr>seconds = 0, minutes = 2, hours = 0, days = 0\<rparr> =
     \<lparr>seconds = 0, minutes = 2, hours = 0, days = 0\<rparr>"
  by (simp add: Time_add_def)

lemma Time_zero_eq: "Time_zero = \<lparr>seconds = 0, minutes = 0, hours = 0, days = 0\<rparr>"
  by (simp add: Time_zero_def new_Time_def)

text \<open>
  C5.  On load every stored record is mapped, in order: a record that is tracking gets the
  time between its \<open>trackingStartTime\<close> and now, converted by \<open>Time.parseMs\<close>, added to
  its stored \<open>elapsedTime\<close>; a record that is not tracking keeps its \<open>elapsedTime\<close>;
  the other fields are kept.  A tracking record started 120000 ms ago with a zero
  \<open>elapsedTime\<close> gets exactly two minutes, whatever the clock says.
\<close>

theorem C5_resume_adds_elapsed_gap:
  "savedTrackingStateList now (Some ts) =
     map (\<lambda>tr. tr\<lparr>elapsedTime :=
                 if isTracking tr
                 then Time_add (elapsedTime tr) (Time_parseMs (now - TrackingState.trackingStartTime tr))
                 else elapsedTime tr\<rparr>) ts \<and>
   savedTrackingStateList now None = [] \<and>
   savedTrackingStateList now
     (Some [\<lparr>TrackingState.line = l, isTracking = True, TrackingState.trackingStartTime = now - 120000,
             elapsedTime = Time_zero\<rparr>]) =
     [\<lparr>TrackingState.line = l, isTracking = True, TrackingState.trackingStartTime = now - 120000,
       elapsedTime = \<lparr>seconds = 0, minutes = 2, hours = 0, days = 0\<rparr>\<rparr>] \<and>
   savedTrackingStateList now
     (Some [\<lparr>TrackingState.line = l, isTracking = False, TrackingState.trackingStartTime = now - 120000,
             elapsedTime = Time_zero\<rparr>]) =
     [\<lparr>TrackingState.line = l, isTracking = False, TrackingState.trackingStartTime = now - 120000,
       elapsedTime = \<lparr>seconds = 0, minutes = 0, hours = 0, days = 0\<rparr>\<rparr>]"
proof -
  have a: "savedTrackingStateList now (Some ts) =
     map (\<lambda>tr. tr\<lparr>elapsedTime :=
                 if isTracking tr
                 then Time_add (elapsedTime tr) (Time_parseMs (now - TrackingState.trackingStartTime tr))
                 else elapsedTime tr\<rparr>) ts" for ts
    unfolding savedTrackingStateList_def by (simp add: resume_eq)
  have b: "savedTrackingStateList now None = []"
    by (simp add: savedTrackingStateList_def)
  have c: "now - (now - 120000) = (120000::int)" by simp
  show ?thesis
    unfolding a b by (simp add: c parseMs_two_minutes Time_add_zero_two_minutes Time_zero_eq)
qed

section \<open>Properties of clone\<close>

lemma extends_iff:
  "extends s s' \<longleftrightarrow>
     next_node s \<le> next_node s' \<and> next_task s \<le> next_task s' \<and>
     (\<forall>a<next_node s. nodes s' a = nodes s a) \<and> (\<forall>t<next_task s. tasks s' t = tasks s t)"
  by (auto simp: extends_def list_all_iff)

lemma extends_refl: "extends s s"
  by (simp add: extends_iff)

lemma extends_trans: "extends s s1 \<Longrightarrow> extends s1 s2 \<Longrightarrow> extends s s2"
  by (auto simp: extends_iff)

lemma tsize_addrs: "tsize t = length (addrs t)"
  by (induction t) (simp add: length_concat comp_def cong: map_cong)

lemma tsize_pos: "0 < tsize t"
  by (cases t) simp

lemma tsize_kid: "u \<in> set ts \<Longrightarrow> tsize u \<le> sum_list (map tsize ts)"
  by (induction ts) auto

lemma rep_cong:
  "(\<And>y. y \<in> set (addrs t) \<Longrightarrow> children (nodes s' y) = children (nodes s y)) \<Longrightarrow> rep s' t = rep s t"
proof (induction t)
  case (AT a ts)
  have "\<And>u. u \<in> set ts \<Longrightarrow> rep s' u = rep s u"
    using AT by auto
  then have "list_all (rep s') ts = list_all (rep s) ts"
    by (simp add: list_all_iff)
  moreover have "children (nodes s' a) = children (nodes s a)"
    using AT.prems by simp
  ultimately show ?case by simp
qed

lemma parents_ok_cong:
  "(\<And>y. y \<in> set (addrs t) \<Longrightarrow> parent (nodes s' y) = parent (nodes s y)) \<Longrightarrow>
   parents_ok s' p t = parents_ok s p t"
proof (induction t arbitrary: p)
  case (AT a ts)
  have "\<And>u. u \<in> set ts \<Longrightarrow> parents_ok s' (Some a) u = parents_ok s (Some a) u"
    using AT by auto
  then have "list_all (parents_ok s' (Some a)) ts = list_all (parents_ok s (Some a)) ts"
    by (simp add: list_all_iff)
  moreover have "parent (nodes s' a) = parent (nodes s a)"
    using AT.prems by simp
  ultimately show ?case by simp
qed

lemma node_ok_extends: "extends s s' \<Longrightarrow> node_ok s a \<Longrightarrow> node_ok s' a"
  by (auto simp: extends_iff node_ok_def split: data.splits)

lemma wf_tree_extends:
  assumes "extends s s'" "wf_tree s t"
  shows "wf_tree s' t"
proof -
  have ok: "\<And>y. y \<in> set (addrs t) \<Longrightarrow> node_ok s y"
    using assms(2) by (simp add: wf_tree_def list_all_iff)
  then have "\<And>y. y \<in> set (addrs t) \<Longrightarrow> nodes s' y = nodes s y"
    using assms(1) by (simp add: extends_iff node_ok_def)
  then have "rep s' t = rep s t"
    by (intro rep_cong) simp
  moreover have "\<And>y. y \<in> set (addrs t) \<Longrightarrow> node_ok s' y"
    using ok node_ok_extends[OF assms(1)] by blast
  ultimately show ?thesis
    using assms(2) by (simp add: wf_tree_def list_all_iff)
qed

lemma clone_length: "clone fuel s as p = Some (s', bs) \<Longrightarrow> length bs = length as"
proof (induction as arbitrary: s s' bs)
  case Nil
  then show ?case by simp
next
  case (Cons a as)
  from Cons.prems obtain k where fuel: "fuel = Suc k" by (cases fuel) auto
  obtain s1 b where cm: "clone_method s a = (s1, b)" by (cases "clone_method s a")
  let ?s2 = "set_parent s1 b p"
  from Cons.prems obtain s3 cs where
    r3: "clone k ?s2 (children (nodes ?s2 b)) (Some b) = Some (s3, cs)"
    by (cases "clone k ?s2 (children (nodes ?s2 b)) (Some b)") (auto simp: fuel cm Let_def)
  from Cons.prems obtain bs' where
    r5: "clone fuel (set_children s3 b cs) as p = Some (s', bs')" and bs: "bs = b # bs'"
    by (cases "clone fuel (set_children s3 b cs) as p") (auto simp: fuel cm r3 Let_def)
  from Cons.IH[OF r5] show ?case by (simp add: bs)
qed

lemma upt_cons_append:
  assumes "Suc b \<le> m" "m \<le> n"
  shows "b # [Suc b..<m] @ [m..<n] = [b..<n]"
proof -
  obtain d where d: "n = m + d" using assms(2) le_Suc_ex by blast
  have "[Suc b..<m] @ [m..<m + d] = [Suc b..<m + d]"
    using assms(1) upt_add_eq_append[of "Suc b" m d] by simp
  moreover have "[b..<n] = b # [Suc b..<n]"
    using assms by (intro upt_conv_Cons) simp
  ultimately show ?thesis by (simp only: d append_Cons)
qed

lemma clone_method_props:
  assumes "node_ok s a" "clone_method s a = (s1, b)"
  shows "b = next_node s" "next_node s1 = Suc (next_node s)" "extends s s1"
    "copy_of s s1 a b" "children (nodes s1 b) = children (nodes s a)"
    "warnings s1 = warnings s"
proof -
  have "b = next_node s \<and> next_node s1 = Suc (next_node s) \<and> extends s s1 \<and>
      copy_of s s1 a b \<and> children (nodes s1 b) = children (nodes s a) \<and> warnings s1 = warnings s"
  proof (cases "level (nodes s a)")
    case None
    show ?thesis
    proof (cases "data (nodes s a)")
      case (TaskData t)
      have "t < next_task s" using assms(1) TaskData by (simp add: node_ok_def)
      with None TaskData assms(2) show ?thesis
        by (auto simp: clone_method_def Node_clone_def Task_clone_def set_data_def Let_def
            extends_iff copy_of_def)
    next
      case (TextData x)
      with None assms(2) show ?thesis
        by (auto simp: clone_method_def Node_clone_def Let_def extends_iff copy_of_def)
    qed
  next
    case (Some l)
    then obtain x where "data (nodes s a) = TextData x"
      using assms(1) by (auto simp: node_ok_def split: data.splits)
    with Some assms(2) show ?thesis
      by (auto simp: clone_method_def HeadingNode_clone_def Let_def extends_iff copy_of_def)
  qed
  then show "b = next_node s" "next_node s1 = Suc (next_node s)" "extends s s1"
    "copy_of s s1 a b" "children (nodes s1 b) = children (nodes s a)"
    "warnings s1 = warnings s"
    by blast+
qed

lemma copy_of_mono:
  assumes c: "copy_of sa sb x y"
    and src: "nodes sa x = nodes s x" "\<And>t. data (nodes s x) = TaskData t \<Longrightarrow> tasks sa t = tasks s t"
      "next_task s \<le> next_task sa"
    and dst: "nodes s' y = nodes sb y"
      "\<And>t. t < next_task sb \<Longrightarrow> tasks s' t = tasks sb t" "next_task sb \<le> next_task s'"
  shows "copy_of s s' x y"
proof (cases "data (nodes s x)")
  case (TextData v)
  with c src(1) dst(1) show ?thesis
    by (simp add: copy_of_def Let_def)
next
  case (TaskData t)
  with c src(1) obtain t' where t': "data (nodes sb y) = TaskData t'"
    "next_task sa \<le> t'" "t' < next_task sb" "tasks sb t' = tasks sa t"
    by (cases "data (nodes sb y)") (simp_all add: copy_of_def Let_def)
  have "tasks s' t' = tasks s t"
    using dst(2)[OF t'(3)] t'(4) src(2)[OF TaskData] by simp
  moreover have "next_task s \<le> t'" "t' < next_task s'"
    using t'(2,3) src(3) dst(3) by simp_all
  ultimately show ?thesis
    using c src(1) dst(1) TaskData t'(1) by (simp add: copy_of_def Let_def)
qed

lemma clone_method_parent:
  "clone_method s a = (s1, b) \<Longrightarrow> parent (nodes s1 b) = parent (nodes s a)"
  by (auto simp: clone_method_def Node_clone_def HeadingNode_clone_def Task_clone_def
      set_data_def Let_def split: option.splits data.splits)

lemma clone_method_one_node:
  assumes "wf_tree s t" and "a \<in> set (addrs t)"
  shows "\<exists>s1 b. clone_method s a = (s1, b) \<and> b = next_node s \<and>
           next_node s1 = Suc (next_node s) \<and> extends s s1 \<and> copy_of s s1 a b \<and>
           children (nodes s1 b) = children (nodes s a) \<and>
           parent (nodes s1 b) = parent (nodes s a)"
proof -
  have ok: "node_ok s a" using assms by (simp add: wf_tree_def list_all_iff)
  obtain s1 b where cm: "clone_method s a = (s1, b)" by (cases "clone_method s a")
  note p = clone_method_props[OF ok cm] clone_method_parent[OF cm]
  show ?thesis using cm p(1-5,7) by blast
qed

lemma clone_forest:
  "list_all (wf_tree s) ts \<Longrightarrow> sum_list (map tsize ts) \<le> fuel \<Longrightarrow>
   \<exists>s' us. clone fuel s (map troot ts) p = Some (s', map troot us) \<and>
     extends s s' \<and> warnings s' = warnings s \<and>
     list_all2 same_shape ts us \<and>
     concat (map addrs us) = [next_node s..<next_node s'] \<and>
     list_all2 (copy_of s s') (concat (map addrs ts)) (concat (map addrs us)) \<and>
     list_all (rep s') us \<and> list_all (parents_ok s' p) us"
proof (induction fuel arbitrary: s ts p rule: less_induct)
  case (less fuel)
  show ?case using less.prems
  proof (induction ts arbitrary: s)
    case Nil
    show ?case by (simp add: extends_refl)
  next
    case (Cons t ts')
    obtain a kids where t: "t = AT a kids" by (cases t)
    from Cons.prems obtain k where fuel: "fuel = Suc k"
      by (cases fuel) (auto simp: t)
    have wft: "wf_tree s t" and wfts: "list_all (wf_tree s) ts'"
      using Cons.prems by simp_all
    have oka: "node_ok s a" and repa: "children (nodes s a) = map troot kids"
      and repk: "list_all (rep s) kids"
      using wft by (simp_all add: wf_tree_def t)
    have wfk: "list_all (wf_tree s) kids"
      using wft by (auto simp: wf_tree_def t list_all_iff)
    obtain s1 b where cm: "clone_method s a = (s1, b)" by (cases "clone_method s a")
    note cmp = clone_method_props[OF oka cm]
    define s2 where "s2 = set_parent s1 b p"
    have s2n: "next_node s2 = Suc (next_node s)" "next_task s2 = next_task s1"
      "tasks s2 = tasks s1" "warnings s2 = warnings s"
      "\<And>y. y \<noteq> b \<Longrightarrow> nodes s2 y = nodes s1 y"
      "nodes s2 b = (nodes s1 b)\<lparr>parent := p\<rparr>"
      by (simp_all add: s2_def set_parent_def cmp)
    have e2: "extends s s2"
      using cmp(3) by (auto simp: extends_iff s2n cmp(1))
    have kids2: "list_all (wf_tree s2) kids"
      using wfk wf_tree_extends[OF e2] by (simp add: list_all_iff)
    have ksz: "sum_list (map tsize kids) \<le> k"
      using Cons.prems(2) by (simp add: t fuel)
    have ch2: "children (nodes s2 b) = map troot kids"
      by (simp add: s2n(6) cmp(5) repa)
    from less.IH[of k s2 kids "Some b"] kids2 ksz fuel
    obtain s3 usk where r3: "clone k s2 (map troot kids) (Some b) = Some (s3, map troot usk)"
      and e3: "extends s2 s3" and w3: "warnings s3 = warnings s2"
      and sh3: "list_all2 same_shape kids usk"
      and ad3: "concat (map addrs usk) = [next_node s2..<next_node s3]"
      and cp3: "list_all2 (copy_of s2 s3) (concat (map addrs kids)) (concat (map addrs usk))"
      and rp3: "list_all (rep s3) usk" and po3: "list_all (parents_ok s3 (Some b)) usk"
      by auto
    define s4 where "s4 = set_children s3 b (map troot usk)"
    have s4n: "next_node s4 = next_node s3" "next_task s4 = next_task s3"
      "tasks s4 = tasks s3" "warnings s4 = warnings s"
      "\<And>y. y \<noteq> b \<Longrightarrow> nodes s4 y = nodes s3 y"
      "nodes s4 b = (nodes s3 b)\<lparr>children := map troot usk\<rparr>"
      by (simp_all add: s4_def set_children_def w3 s2n)
    have b3: "nodes s3 b = nodes s2 b"
      using e3 by (simp add: extends_iff s2n cmp(1))
    have e4: "extends s s4"
      using e2 e3 by (auto simp: extends_iff s4n s2n cmp(1))
    have ts4: "list_all (wf_tree s4) ts'"
      using wfts wf_tree_extends[OF e4] by (simp add: list_all_iff)
    have tsz: "sum_list (map tsize ts') \<le> fuel"
      using Cons.prems(2) by simp
    from Cons.IH[OF ts4 tsz]
    obtain s5 us' where r5: "clone fuel s4 (map troot ts') p = Some (s5, map troot us')"
      and e5: "extends s4 s5" and w5: "warnings s5 = warnings s4"
      and sh5: "list_all2 same_shape ts' us'"
      and ad5: "concat (map addrs us') = [next_node s4..<next_node s5]"
      and cp5: "list_all2 (copy_of s4 s5) (concat (map addrs ts')) (concat (map addrs us'))"
      and rp5: "list_all (rep s5) us'" and po5: "list_all (parents_ok s5 p) us'"
      by auto
    let ?u = "AT b usk"
    have res: "clone fuel s (map troot (t # ts')) p = Some (s5, map troot (?u # us'))"
      using cm r3 r5 ch2 by (simp add: fuel t s2_def[symmetric] s4_def[symmetric])
    have e: "extends s s5" using e4 e5 by (rule extends_trans)
    have w: "warnings s5 = warnings s" by (simp add: w5 s4n)
    have sh: "list_all2 same_shape (t # ts') (?u # us')"
      using sh3 sh5 by (simp add: t)
    have n23: "Suc b \<le> next_node s3" "next_node s3 \<le> next_node s5"
      using e3 e5 by (simp_all add: extends_iff s2n s4n cmp(1))
    have ad: "concat (map addrs (?u # us')) = [next_node s..<next_node s5]"
    proof -
      have "concat (map addrs (?u # us')) = b # [Suc b..<next_node s3] @ [next_node s3..<next_node s5]"
        by (simp add: ad3 ad5 s2n s4n cmp(1))
      also have "\<dots> = [b..<next_node s5]"
        using n23 by (rule upt_cons_append)
      finally show ?thesis by (simp add: cmp(1))
    qed
    have keep5: "nodes s5 y = nodes s3 y" if "y \<in> set (concat (map addrs usk))" for y
    proof -
      from that have "Suc b \<le> y" "y < next_node s3" by (simp_all add: ad3 s2n cmp(1))
      then show ?thesis using e5 by (simp add: extends_iff s4n)
    qed
    have keepb: "nodes s5 b = (nodes s2 b)\<lparr>children := map troot usk\<rparr>"
      using e5 n23 by (simp add: extends_iff s4n b3)
    have tk5: "tasks s5 x = tasks s3 x" if "x < next_task s3" for x
      using e5 that by (simp add: extends_iff s4n)
    have tk3: "tasks s3 x = tasks s1 x" if "x < next_task s1" for x
      using e3 that by (simp add: extends_iff s2n)
    have nt: "next_task s \<le> next_task s1" "next_task s1 \<le> next_task s3" "next_task s3 \<le> next_task s5"
      using cmp(3) e3 e5 by (simp_all add: extends_iff s2n s4n)
    have cpa: "copy_of s s5 a b"
      using cmp(4) nt tk5 tk3
      by (auto simp: copy_of_def Let_def keepb s2n split: data.splits)
    have okk: "node_ok s x" if "x \<in> set (concat (map addrs kids))" for x
      using wft that by (auto simp: wf_tree_def t list_all_iff)
    have okt: "node_ok s x" if "x \<in> set (concat (map addrs ts'))" for x
      using wfts that by (auto simp: wf_tree_def list_all_iff)
    have cpk: "list_all2 (copy_of s s5) (concat (map addrs kids)) (concat (map addrs usk))"
    proof (rule list.rel_mono_strong[OF cp3])
      fix x y assume xy: "x \<in> set (concat (map addrs kids))" "y \<in> set (concat (map addrs usk))"
        and c: "copy_of s2 s3 x y"
      have ok: "node_ok s x" using okk xy(1) .
      show "copy_of s s5 x y"
      proof (rule copy_of_mono[OF c])
        show "nodes s2 x = nodes s x" using e2 ok by (simp add: extends_iff node_ok_def)
        show "tasks s2 t = tasks s t" if "data (nodes s x) = TaskData t" for t
          using e2 ok that by (simp add: extends_iff node_ok_def)
        show "next_task s \<le> next_task s2" using nt by (simp add: s2n)
        show "nodes s5 y = nodes s3 y" using keep5 xy(2) .
        show "tasks s5 t = tasks s3 t" if "t < next_task s3" for t using tk5 that .
        show "next_task s3 \<le> next_task s5" using nt by simp
      qed
    qed
    have cpt: "list_all2 (copy_of s s5) (concat (map addrs ts')) (concat (map addrs us'))"
    proof (rule list.rel_mono_strong[OF cp5])
      fix x y assume xy: "x \<in> set (concat (map addrs ts'))" "y \<in> set (concat (map addrs us'))"
        and c: "copy_of s4 s5 x y"
      have ok: "node_ok s x" using okt xy(1) .
      show "copy_of s s5 x y"
      proof (rule copy_of_mono[OF c])
        show "nodes s4 x = nodes s x" using e4 ok by (simp add: extends_iff node_ok_def)
        show "tasks s4 t = tasks s t" if "data (nodes s x) = TaskData t" for t
          using e4 ok that by (simp add: extends_iff node_ok_def)
        show "next_task s \<le> next_task s4" using e4 by (simp add: extends_iff)
      qed simp_all
    qed
    have cp: "list_all2 (copy_of s s5) (concat (map addrs (t # ts'))) (concat (map addrs (?u # us')))"
      using cpa cpk cpt by (simp add: t list_all2_appendI)
    have rpu: "rep s5 ?u"
    proof -
      have "rep s5 u = rep s3 u" if "u \<in> set usk" for u
      proof (rule rep_cong)
        fix y assume "y \<in> set (addrs u)"
        with that have "y \<in> set (concat (map addrs usk))" by auto
        then show "children (nodes s5 y) = children (nodes s3 y)" by (simp only: keep5)
      qed
      then have "list_all (rep s5) usk" using rp3 by (simp add: list_all_iff)
      then show ?thesis by (simp add: keepb)
    qed
    have pou: "parents_ok s5 p ?u"
    proof -
      have "parents_ok s5 (Some b) u = parents_ok s3 (Some b) u" if "u \<in> set usk" for u
      proof (rule parents_ok_cong)
        fix y assume "y \<in> set (addrs u)"
        with that have "y \<in> set (concat (map addrs usk))" by auto
        then show "parent (nodes s5 y) = parent (nodes s3 y)" by (simp only: keep5)
      qed
      then have "list_all (parents_ok s5 (Some b)) usk" using po3 by (simp add: list_all_iff)
      then show ?thesis by (simp add: keepb s2n)
    qed
    have rus: "list_all (rep s5) (?u # us')" and pus: "list_all (parents_ok s5 p) (?u # us')"
      using rpu pou rp5 po5 by simp_all
    show ?case
      by (intro exI[of _ s5] exI[of _ "?u # us'"] conjI res e w sh ad cp rus pus)
  qed
qed

lemma clone_tree:
  assumes "wf_tree s t" and "tsize t \<le> fuel"
  shows "\<exists>s1 u. clone fuel s [troot t] None = Some (s1, [troot u]) \<and>
           same_shape t u \<and> rep s1 u \<and> parents_ok s1 None u \<and>
           addrs u = [next_node s..<next_node s1] \<and>
           list_all2 (copy_of s s1) (addrs t) (addrs u) \<and>
           extends s s1 \<and> warnings s1 = warnings s"
proof -
  from clone_forest[of s "[t]" fuel None] assms
  obtain s' us where r: "clone fuel s (map troot [t]) None = Some (s', map troot us)"
    and e: "extends s s'" and w: "warnings s' = warnings s"
    and sh: "list_all2 same_shape [t] us"
    and ad: "concat (map addrs us) = [next_node s..<next_node s']"
    and cp: "list_all2 (copy_of s s') (concat (map addrs [t])) (concat (map addrs us))"
    and rp: "list_all (rep s') us" and po: "list_all (parents_ok s' None) us"
    by auto
  from sh obtain u where us: "us = [u]"
    by (auto simp: list_all2_Cons1)
  show ?thesis
    using r e w sh ad cp rp po unfolding us
    by (intro exI[of _ s'] exI[of _ u]) simp
qed

lemma example_wf: "wf_tree example_state example_tree"
  by code_simp

lemma example_size: "tsize example_tree \<le> 5"
  by code_simp

lemma example_task_node: "3 \<in> set (addrs example_tree)"
  by code_simp

text \<open>
  C2 as the spec states it: \<open>clone()\<close> is deep.  The method \<open>Node.clone()\<close> copies
  one node: called on the task at address 3 of the example it returns a new node whose
  \<open>children\<close> holds the receiver's own child (address 4) and whose \<open>parent\<close> is the
  receiver's parent (address 1); assigning to that child's line through the copy changes
  the line of the original's child.
\<close>

theorem C2_Node_clone_shallow_counterexample:
  "snd (Node_clone example_state 3) = 6 \<and>
   children (nodes (fst (Node_clone example_state 3)) 6) = [4] \<and>
   children (nodes example_state 3) = [4] \<and>
   parent (nodes (fst (Node_clone example_state 3)) 6) = Some 1 \<and>
   Node.line (nodes (set_line (fst (Node_clone example_state 3)) 4 99) 4)
     \<noteq> Node.line (nodes example_state 4)"
  by code_simp

text \<open>
  C2, amended: the module's \<open>clone([root])\<close>, on which \<open>append\<close>, \<open>filter\<close> and
  \<open>replace\<close> work, is deep.  For a tree in the store and fuel of at least its size it
  returns; the result is a tree of the same shape whose nodes are the objects allocated by
  the call, in pre-order; each is a copy of the node at the same position, with a task
  object of its own; the root's \<open>parent\<close> is undefined and every other \<open>parent\<close> is
  the new node that holds it; every object that existed before the call is unchanged, and
  stays so when a new node or a new task is assigned to.  The method \<open>clone()\<close> of a
  node of the tree (of \<open>Node\<close>, or of \<open>HeadingNode\<close> for a heading) copies that one
  node: it returns one new object, a copy of the receiver with a task object of its own,
  whose \<open>children\<close> are the receiver's own children and whose \<open>parent\<close> is the
  receiver's parent, and leaves every earlier object as it was.
\<close>

theorem C2_clone_deep:
  assumes "wf_tree s t" and "tsize t \<le> fuel"
  shows "(\<exists>s' u. clone fuel s [troot t] None = Some (s', [troot u]) \<and>
           same_shape t u \<and> rep s' u \<and> parents_ok s' None u \<and>
           addrs u = [next_node s..<next_node s'] \<and>
           list_all2 (copy_of s s') (addrs t) (addrs u) \<and>
           extends s s' \<and>
           (\<forall>b\<in>set (addrs u). \<forall>n. \<forall>a<next_node s.
              nodes (s'\<lparr>nodes := (nodes s')(b := n)\<rparr>) a = nodes s a) \<and>
           (\<forall>t'. next_task s \<le> t' \<longrightarrow> (\<forall>v. \<forall>a<next_task s.
              tasks (s'\<lparr>tasks := (tasks s')(t' := v)\<rparr>) a = tasks s a))) \<and>
         (\<forall>a\<in>set (addrs t).
            \<exists>s1 b. clone_method s a = (s1, b) \<and> b = next_node s \<and>
              next_node s1 = Suc (next_node s) \<and> extends s s1 \<and> copy_of s s1 a b \<and>
              children (nodes s1 b) = children (nodes s a) \<and>
              parent (nodes s1 b) = parent (nodes s a))"
proof
  from clone_forest[of s "[t]" fuel None] assms
  obtain s' us where r: "clone fuel s (map troot [t]) None = Some (s', map troot us)"
    and e: "extends s s'" and sh: "list_all2 same_shape [t] us"
    and ad: "concat (map addrs us) = [next_node s..<next_node s']"
    and cp: "list_all2 (copy_of s s') (concat (map addrs [t])) (concat (map addrs us))"
    and rp: "list_all (rep s') us" and po: "list_all (parents_ok s' None) us"
    by auto
  from sh obtain u where us: "us = [u]"
    by (auto simp: list_all2_Cons1)
  have m1: "\<forall>b\<in>set (addrs u). \<forall>n. \<forall>a<next_node s.
              nodes (s'\<lparr>nodes := (nodes s')(b := n)\<rparr>) a = nodes s a"
    using e ad by (auto simp: us extends_iff)
  have m2: "\<forall>t'. next_task s \<le> t' \<longrightarrow> (\<forall>v. \<forall>a<next_task s.
              tasks (s'\<lparr>tasks := (tasks s')(t' := v)\<rparr>) a = tasks s a)"
    using e by (auto simp: extends_iff)
  show "\<exists>s' u. clone fuel s [troot t] None = Some (s', [troot u]) \<and>
           same_shape t u \<and> rep s' u \<and> parents_ok s' None u \<and>
           addrs u = [next_node s..<next_node s'] \<and>
           list_all2 (copy_of s s') (addrs t) (addrs u) \<and>
           extends s s' \<and>
           (\<forall>b\<in>set (addrs u). \<forall>n. \<forall>a<next_node s.
              nodes (s'\<lparr>nodes := (nodes s')(b := n)\<rparr>) a = nodes s a) \<and>
           (\<forall>t'. next_task s \<le> t' \<longrightarrow> (\<forall>v. \<forall>a<next_task s.
              tasks (s'\<lparr>tasks := (tasks s')(t' := v)\<rparr>) a = tasks s a))"
    using r e sh ad cp rp po m1 m2 unfolding us
    by (intro exI[of _ s'] exI[of _ u]) simp
next
  show "\<forall>a\<in>set (addrs t).
            \<exists>s1 b. clone_method s a = (s1, b) \<and> b = next_node s \<and>
              next_node s1 = Suc (next_node s) \<and> extends s s1 \<and> copy_of s s1 a b \<and>
              children (nodes s1 b) = children (nodes s a) \<and>
              parent (nodes s1 b) = parent (nodes s a)"
    using clone_method_one_node[OF assms(1)] by blast
qed

theorem C2_clone_deep_witness:
  "wf_tree example_state example_tree \<and> tsize example_tree \<le> 5 \<and>
   (\<exists>s' u. clone 5 example_state [0] None = Some (s', [troot u]) \<and>
      same_shape example_tree u \<and> rep s' u \<and> parents_ok s' None u \<and>
      addrs u = [6..<next_node s'] \<and>
      list_all2 (copy_of example_state s') (addrs example_tree) (addrs u) \<and>
      extends example_state s') \<and>
   3 \<in> set (addrs example_tree) \<and>
   (\<exists>s1. clone_method example_state 3 = (s1, 6) \<and> next_node s1 = 7 \<and>
      extends example_state s1 \<and> copy_of example_state s1 3 6 \<and>
      children (nodes s1 6) = children (nodes example_state 3) \<and>
      parent (nodes s1 6) = parent (nodes example_state 3))"
proof -
  have r: "troot example_tree = 0" "next_node example_state = 6"
    by (simp_all add: example_tree_def example_state_def)
  from C2_clone_deep[OF example_wf example_size] show ?thesis
    using example_wf example_size example_task_node unfolding r by fastforce
qed

section \<open>Properties of find\<close>

lemma bfs_order_append:
  "bfs_order (fs @ gs) = map troot fs @ bfs_order (gs @ concat (map tkids fs))"
proof (induction fs arbitrary: gs)
  case Nil
  show ?case by simp
next
  case (Cons t fs)
  have "bfs_order ((t # fs) @ gs) = troot t # bfs_order (fs @ (gs @ tkids t))"
    by simp
  also have "\<dots> = troot t # map troot fs @ bfs_order ((gs @ tkids t) @ concat (map tkids fs))"
    by (simp only: Cons.IH)
  finally show ?case by simp
qed

lemma bfs_order_level_order: "bfs_order ts = level_order ts"
proof (induction ts rule: level_order.induct)
  case (1 ts)
  show ?case
  proof (cases "ts = []")
    case True
    then show ?thesis by (simp add: level_order.simps)
  next
    case False
    have "bfs_order ts = map troot ts @ bfs_order (concat (map tkids ts))"
      using bfs_order_append[of ts "[]"] by simp
    also have "\<dots> = map troot ts @ level_order (concat (map tkids ts))"
      using 1[OF False] by simp
    also have "\<dots> = level_order ts"
      using False by (subst (2) level_order.simps) simp
    finally show ?thesis .
  qed
qed

lemma rep_kids: "rep s t \<Longrightarrow> children (nodes s (troot t)) = map troot (tkids t) \<and> list_all (rep s) (tkids t)"
  by (cases t) simp

lemma bfs_loop_order:
  "list_all (rep s) ts \<Longrightarrow> sum_list (map tsize ts) \<le> fuel \<Longrightarrow>
   bfs_loop fuel s (map troot ts) acc = Some (acc @ bfs_order ts)"
proof (induction ts arbitrary: fuel acc rule: bfs_order.induct)
  case 1
  show ?case by simp
next
  case (2 t ts)
  obtain a kids where t: "t = AT a kids" by (cases t)
  from 2(3) obtain k where fuel: "fuel = Suc k" by (cases fuel) (auto simp: t)
  have r: "list_all (rep s) (ts @ tkids t)" using 2(2) by (simp add: t)
  have sz: "sum_list (map tsize (ts @ tkids t)) \<le> k" using 2(3) by (simp add: t fuel)
  have ch: "children (nodes s a) = map troot kids" using 2(2) by (simp add: t)
  from 2(1)[OF r sz, of "acc @ [a]"] show ?case
    by (simp add: fuel t ch)
qed

lemma find_loop_scan:
  "list_all (rep s) ts \<Longrightarrow> sum_list (map tsize ts) \<le> fuel \<Longrightarrow>
   find_loop fuel s P (map troot ts) = Some (scan (P s) (bfs_order ts))"
proof (induction ts arbitrary: fuel rule: bfs_order.induct)
  case 1
  show ?case by simp
next
  case (2 t ts)
  obtain a kids where t: "t = AT a kids" by (cases t)
  from 2(3) obtain k where fuel: "fuel = Suc k" by (cases fuel) (auto simp: t)
  have r: "list_all (rep s) (ts @ tkids t)" using 2(2) by (simp add: t)
  have sz: "sum_list (map tsize (ts @ tkids t)) \<le> k" using 2(3) by (simp add: t fuel)
  have ch: "children (nodes s a) = map troot kids" using 2(2) by (simp add: t)
  from 2(1)[OF r sz] show ?case
    by (simp add: fuel t ch split: sum.split bool.split)
qed

lemma find_node_scan:
  assumes "rep s t" "tsize t \<le> fuel"
  shows "find_node fuel s (troot t) P =
     Some (case scan (P s) (level_order [t]) of
             Inl e \<Rightarrow> (Log_w e s, None)
           | Inr r \<Rightarrow> (s, r))"
  using find_loop_scan[of s "[t]" fuel P] assms
  by (simp add: find_node_def bfs_order_level_order split: sum.split)

section \<open>Properties of filter\<close>

lemma troot_prune_tree [simp]: "troot (prune_tree R t) = troot t"
  by (cases t) simp

lemma addrs_prune_tree_subset: "set (addrs (prune_tree R t)) \<subseteq> set (addrs t)"
  by (induction t) auto

lemma in_addrs_kid: "k \<in> set ts \<Longrightarrow> x \<in> set (addrs k) \<Longrightarrow> x \<in> set (addrs (AT a ts))"
  by auto

lemma troot_in_addrs: "troot t \<in> set (addrs t)"
  by (cases t) simp

lemma distinct_concat_sub:
  assumes "distinct (concat (map f xs))"
    and "\<And>x. x \<in> set xs \<Longrightarrow> distinct (g x) \<and> set (g x) \<subseteq> set (f x)"
  shows "distinct (concat (map g (filter Q xs)))"
  using assms
proof (induction xs)
  case Nil
  show ?case by simp
next
  case (Cons x xs)
  have d: "distinct (concat (map g (filter Q xs)))"
    using Cons by simp
  have sub: "set (concat (map g (filter Q xs))) \<subseteq> set (concat (map f xs))"
    using Cons.prems(2) by auto
  have "set (g x) \<inter> set (concat (map g (filter Q xs))) = {}"
    using Cons.prems(1) Cons.prems(2)[of x] sub by auto
  with d Cons.prems(2)[of x] show ?case by simp
qed

lemma distinct_prune_tree: "distinct (addrs t) \<Longrightarrow> distinct (addrs (prune_tree R t))"
proof (induction t)
  case (AT a ts)
  have dk: "distinct (concat (map addrs ts))" and a: "a \<notin> set (concat (map addrs ts))"
    using AT.prems by simp_all
  have each: "distinct (addrs (prune_tree R k)) \<and> set (addrs (prune_tree R k)) \<subseteq> set (addrs k)"
    if "k \<in> set ts" for k
  proof -
    have "distinct (addrs k)" using dk that by (induction ts) auto
    then show ?thesis using AT.IH[OF that] addrs_prune_tree_subset by blast
  qed
  have "distinct (concat (map (\<lambda>k. addrs (prune_tree R k)) (filter (\<lambda>k. troot k \<notin> R) ts)))"
    using dk each by (rule distinct_concat_sub)
  moreover have "a \<notin> set (concat (map (\<lambda>k. addrs (prune_tree R k)) (filter (\<lambda>k. troot k \<notin> R) ts)))"
    using a each by auto
  ultimately show ?case by (simp add: comp_def)
qed

lemma sum_list_filter_le:
  fixes f g :: "'a \<Rightarrow> nat"
  assumes "\<And>x. x \<in> set xs \<Longrightarrow> f x \<le> g x"
  shows "sum_list (map f (filter Q xs)) \<le> sum_list (map g xs)"
  using assms
proof (induction xs)
  case Nil
  show ?case by simp
next
  case (Cons x xs)
  have "f x \<le> g x" using Cons.prems by simp
  moreover have "sum_list (map f (filter Q xs)) \<le> sum_list (map g xs)"
    using Cons by simp
  ultimately show ?case by simp
qed

lemma tsize_prune_tree: "tsize (prune_tree R t) \<le> tsize t"
proof (induction t)
  case (AT a ts)
  have "sum_list (map (\<lambda>k. tsize (prune_tree R k)) (filter (\<lambda>k. troot k \<notin> R) ts))
          \<le> sum_list (map tsize ts)"
    using AT.IH by (rule sum_list_filter_le)
  then show ?case by (simp add: comp_def)
qed

lemma rep_pruned:
  assumes "rep s1 t" "set (addrs t) \<subseteq> set A"
  shows "rep (pruned s1 A R) (prune_tree R t)"
  using assms
proof (induction t)
  case (AT a ts)
  have ch: "children (nodes s1 a) = map troot ts" and rk: "\<And>k. k \<in> set ts \<Longrightarrow> rep s1 k"
    using AT.prems(1) by (simp_all add: list_all_iff)
  have "a \<in> set A" using AT.prems(2) by simp
  then have c: "children (nodes (pruned s1 A R) a) = filter (\<lambda>c. c \<notin> R) (map troot ts)"
    by (simp add: pruned_def ch)
  have "filter (\<lambda>c. c \<notin> R) (map troot ts) = map troot (map (prune_tree R) (filter (\<lambda>k. troot k \<notin> R) ts))"
    by (simp add: filter_map comp_def)
  moreover have "rep (pruned s1 A R) (prune_tree R k)" if "k \<in> set ts" for k
    using AT.IH[OF that rk[OF that]] AT.prems(2) that by auto
  ultimately show ?case
    using c by (simp add: list_all_iff)
qed

lemma tree_facts:
  assumes "rep s u" "parents_ok s p0 u" "distinct (addrs u)"
  shows "parent (nodes s (troot u)) = p0 \<and>
     (\<forall>x\<in>set (addrs u). \<forall>c\<in>set (children (nodes s x)).
        c \<in> set (addrs u) \<and> c \<noteq> troot u \<and> parent (nodes s c) = Some x) \<and>
     (\<forall>n\<in>set (addrs u). n \<noteq> troot u \<longrightarrow>
        (\<exists>p\<in>set (addrs u). parent (nodes s n) = Some p \<and> n \<in> set (children (nodes s p))))"
  using assms
proof (induction u arbitrary: p0)
  case (AT a ts)
  have ch: "children (nodes s a) = map troot ts"
    and pa: "parent (nodes s a) = p0"
    and an: "a \<notin> set (concat (map addrs ts))"
    using AT.prems by simp_all
  have ih: "parent (nodes s (troot k)) = Some a \<and>
     (\<forall>x\<in>set (addrs k). \<forall>c\<in>set (children (nodes s x)).
        c \<in> set (addrs k) \<and> c \<noteq> troot k \<and> parent (nodes s c) = Some x) \<and>
     (\<forall>n\<in>set (addrs k). n \<noteq> troot k \<longrightarrow>
        (\<exists>p\<in>set (addrs k). parent (nodes s n) = Some p \<and> n \<in> set (children (nodes s p))))"
    if k: "k \<in> set ts" for k
  proof (rule AT.IH[OF k])
    show "rep s k" using AT.prems(1) k by (simp add: list_all_iff)
    show "parents_ok s (Some a) k" using AT.prems(2) k by (simp add: list_all_iff)
    have "distinct (concat (map addrs ts))" using AT.prems(3) by simp
    then show "distinct (addrs k)" using k by (induction ts) auto
  qed
  have sub: "set (addrs k) \<subseteq> set (addrs (AT a ts))" if "k \<in> set ts" for k
    using that by auto
  have nota: "a \<notin> set (addrs k)" if "k \<in> set ts" for k
    using an that by auto
  have p2: "c \<in> set (addrs (AT a ts)) \<and> c \<noteq> troot (AT a ts) \<and> parent (nodes s c) = Some x"
    if x: "x \<in> set (addrs (AT a ts))" and c: "c \<in> set (children (nodes s x))" for x c
  proof (cases "x = a")
    case True
    from c obtain k where k: "k \<in> set ts" "c = troot k"
      by (auto simp: True ch)
    have ck: "c \<in> set (addrs k)" using k(2) troot_in_addrs by simp
    have "c \<in> set (addrs (AT a ts))" using ck sub[OF k(1)] by blast
    moreover have "c \<noteq> a" using ck nota[OF k(1)] by blast
    moreover have "parent (nodes s c) = Some x" using ih[OF k(1)] k(2) True by simp
    ultimately show ?thesis by simp
  next
    case False
    with x obtain k where k: "k \<in> set ts" "x \<in> set (addrs k)" by auto
    from ih[OF k(1)] k(2) c have ck: "c \<in> set (addrs k)" and pc: "parent (nodes s c) = Some x"
      by blast+
    have "c \<in> set (addrs (AT a ts))" using ck sub[OF k(1)] by blast
    moreover have "c \<noteq> a" using ck nota[OF k(1)] by blast
    ultimately show ?thesis using pc by simp
  qed
  have p3: "\<exists>p\<in>set (addrs (AT a ts)). parent (nodes s n) = Some p \<and> n \<in> set (children (nodes s p))"
    if n: "n \<in> set (addrs (AT a ts))" "n \<noteq> troot (AT a ts)" for n
  proof -
    from n obtain k where k: "k \<in> set ts" "n \<in> set (addrs k)" by auto
    show ?thesis
    proof (cases "n = troot k")
      case True
      have "parent (nodes s n) = Some a" using ih[OF k(1)] True by simp
      moreover have "n \<in> set (children (nodes s a))" using k(1) True by (simp add: ch)
      ultimately show ?thesis by (intro bexI[of _ a]) simp_all
    next
      case False
      with ih[OF k(1)] k(2) obtain p where p: "p \<in> set (addrs k)" "parent (nodes s n) = Some p"
        "n \<in> set (children (nodes s p))" by blast
      have "p \<in> set (addrs (AT a ts))" using p(1) sub[OF k(1)] by blast
      then show ?thesis using p(2,3) by (intro bexI[of _ p]) simp_all
    qed
  qed
  show ?case
  proof (intro conjI ballI impI)
    show "parent (nodes s (troot (AT a ts))) = p0" using pa by simp
  qed (use p2 p3 in blast)+
qed

lemma tree_struct_of_rep:
  assumes "rep s u" "parents_ok s None u" "distinct (addrs u)"
  shows "tree_struct s (addrs u) (troot u)"
  unfolding tree_struct_def
  using tree_facts[OF assms] troot_in_addrs[of u] by (intro conjI) blast+

lemma fst_flat_forest: "map fst (flat_forest ts d) = concat (map addrs ts)"
  by (induction ts d rule: flat_forest.induct) simp_all

lemma flat_nodes_forest:
  "list_all (rep s) ts \<Longrightarrow> sum_list (map tsize ts) \<le> fuel \<Longrightarrow>
   flat_nodes fuel s (map troot ts) d = Some (flat_forest ts d)"
proof (induction ts d arbitrary: fuel rule: flat_forest.induct)
  case (1 d)
  show ?case by simp
next
  case (2 a ks ts d)
  from 2(4) obtain k where fuel: "fuel = Suc k" by (cases fuel) auto
  have ch: "children (nodes s a) = map troot ks" using 2(3) by simp
  have "flat_nodes k s (map troot ks) (d + 1) = Some (flat_forest ks (d + 1))"
    using 2(3,4) by (intro 2(1)) (simp_all add: fuel)
  moreover have "flat_nodes (Suc k) s (map troot ts) d = Some (flat_forest ts d)"
    using 2(3,4) by (intro 2(2)) (simp_all add: fuel)
  ultimately show ?case by (simp add: fuel ch)
qed

lemma flat_tree:
  assumes "rep s u" "tsize u \<le> fuel"
  shows "flat fuel s (troot u) = Some (flat_forest (tkids u) 0)"
proof -
  obtain a ts where u: "u = AT a ts" by (cases u)
  have "flat_nodes fuel s (map troot ts) 0 = Some (flat_forest ts 0)"
    using assms by (intro flat_nodes_forest) (simp_all add: u)
  moreover have "children (nodes s a) = map troot ts" using assms(1) by (simp add: u)
  ultimately show ?thesis by (simp add: flat_def u)
qed

lemma update_lines_frame:
  "x \<notin> fst ` set ff \<Longrightarrow> nodes (update_lines s ff i) x = nodes s x"
  by (induction ff arbitrary: s i) (auto simp: set_line_def)

lemma update_lines_fields:
  "children (nodes (update_lines s ff i) x) = children (nodes s x)"
  "parent (nodes (update_lines s ff i) x) = parent (nodes s x)"
  "nodeId (nodes (update_lines s ff i) x) = nodeId (nodes s x)"
  "next_node (update_lines s ff i) = next_node s"
  "next_task (update_lines s ff i) = next_task s"
  "tasks (update_lines s ff i) = tasks s"
  "warnings (update_lines s ff i) = warnings s"
  by (induction ff arbitrary: s i; simp add: set_line_def)+

lemma update_lines_lines:
  "distinct (map fst ff) \<Longrightarrow>
   map (\<lambda>g. Node.line (nodes (update_lines s ff i) (fst g))) ff = map (\<lambda>j. int j + 1) [i..<i + length ff]"
proof (induction ff arbitrary: s i)
  case Nil
  show ?case by simp
next
  case (Cons f fs)
  let ?s = "set_line s (fst f) (int i + 1)"
  have "fst f \<notin> fst ` set fs" using Cons.prems by auto
  then have "Node.line (nodes (update_lines ?s fs (i + 1)) (fst f)) = int i + 1"
    by (simp add: update_lines_frame set_line_def)
  moreover have "map (\<lambda>g. Node.line (nodes (update_lines ?s fs (i + 1)) (fst g))) fs
     = map (\<lambda>j. int j + 1) [i + 1..<i + 1 + length fs]"
    using Cons.prems by (intro Cons.IH) simp
  moreover have "[i..<i + length (f # fs)] = i # [i + 1..<i + 1 + length fs]"
    using upt_conv_Cons[of i "i + length (f # fs)"] by simp
  ultimately show ?case by simp
qed

lemma pruned_fields:
  "parent (nodes (pruned s1 A R) x) = parent (nodes s1 x)"
  "nodeId (nodes (pruned s1 A R) x) = nodeId (nodes s1 x)"
  "Node.line (nodes (pruned s1 A R) x) = Node.line (nodes s1 x)"
  "next_node (pruned s1 A R) = next_node s1"
  "next_task (pruned s1 A R) = next_task s1"
  "tasks (pruned s1 A R) = tasks s1"
  "warnings (pruned s1 A R) = warnings s1"
  by (simp_all add: pruned_def)

lemma pruned_children:
  "x \<in> set A \<Longrightarrow> children (nodes (pruned s1 A R) x) = filter (\<lambda>c. c \<notin> R) (children (nodes s1 x))"
  by (simp add: pruned_def)

lemma pruned_outside: "x \<notin> set A \<Longrightarrow> nodes (pruned s1 A R) x = nodes s1 x"
  by (simp add: pruned_def)

lemma pruned_empty: "pruned s1 A {} = s1"
proof -
  have "(\<lambda>x. if x \<in> set A
             then (nodes s1 x)\<lparr>children := filter (\<lambda>c. c \<notin> {}) (children (nodes s1 x))\<rparr>
             else nodes s1 x) = nodes s1"
    by (rule ext) simp
  then show ?thesis by (simp add: pruned_def)
qed

lemma set_children_pruned:
  assumes ts: "tree_struct s1 A r" and p: "p \<in> set A"
  shows "set_children (pruned s1 A R) p
           (filter (\<lambda>c. nodeId (nodes (pruned s1 A R) c) \<noteq> nodeId (nodes (pruned s1 A R) n))
              (children (nodes (pruned s1 A R) p)))
         = pruned s1 A (R \<union> same_id s1 p n)"
proof -
  let ?R' = "R \<union> same_id s1 p n"
  have other: "filter (\<lambda>c. c \<notin> ?R') (children (nodes s1 x)) = filter (\<lambda>c. c \<notin> R) (children (nodes s1 x))"
    if x: "x \<in> set A" "x \<noteq> p" for x
  proof (rule filter_cong[OF refl])
    fix c assume c: "c \<in> set (children (nodes s1 x))"
    have "c \<notin> same_id s1 p n"
    proof
      assume "c \<in> same_id s1 p n"
      then have "c \<in> set (children (nodes s1 p))" by (simp add: same_id_def)
      then have "parent (nodes s1 c) = Some p" using ts p by (simp add: tree_struct_def)
      moreover have "parent (nodes s1 c) = Some x" using ts x(1) c by (simp add: tree_struct_def)
      ultimately show False using x(2) by simp
    qed
    then show "(c \<notin> ?R') = (c \<notin> R)" by simp
  qed
  have self: "filter (\<lambda>x. x \<notin> R \<and> nodeId (nodes s1 x) \<noteq> nodeId (nodes s1 n)) (children (nodes s1 p))
              = filter (\<lambda>c. c \<notin> R \<and> c \<notin> same_id s1 p n) (children (nodes s1 p))"
    by (rule filter_cong[OF refl]) (auto simp: same_id_def)
  have "(nodes (pruned s1 A R))(p := (nodes (pruned s1 A R) p)
           \<lparr>children := filter (\<lambda>c. nodeId (nodes s1 c) \<noteq> nodeId (nodes s1 n))
                (filter (\<lambda>c. c \<notin> R) (children (nodes s1 p)))\<rparr>)
        = nodes (pruned s1 A ?R')"
  proof (rule ext)
    fix x
    show "((nodes (pruned s1 A R))(p := (nodes (pruned s1 A R) p)
           \<lparr>children := filter (\<lambda>c. nodeId (nodes s1 c) \<noteq> nodeId (nodes s1 n))
                (filter (\<lambda>c. c \<notin> R) (children (nodes s1 p)))\<rparr>)) x
        = nodes (pruned s1 A ?R') x"
    proof (cases "x = p")
      case True
      then show ?thesis using p by (simp add: self pruned_def)
    next
      case False
      then show ?thesis using other[of x] by (simp add: pruned_def)
    qed
  qed
  then show ?thesis
    using p by (simp add: set_children_def pruned_fields pruned_children)
qed

lemma remove_node_step:
  assumes ts: "tree_struct s1 A r" and n: "n \<in> set A"
  shows "remove_node P (pruned s1 A R) n =
     (case P (pruned s1 A R) n of
        Inl e \<Rightarrow> Inl e
      | Inr m \<Rightarrow>
          if \<not> m \<and> filter (\<lambda>c. c \<notin> R) (children (nodes s1 n)) = []
          then (case parent (nodes s1 n) of
                  None \<Rightarrow> Inl TypeError
                | Some p \<Rightarrow> Inr (pruned s1 A (R \<union> same_id s1 p n)))
          else Inr (pruned s1 A R))"
proof (cases "parent (nodes s1 n)")
  case None
  then show ?thesis using n
    by (simp add: remove_node_def pruned_fields pruned_children split: sum.split)
next
  case (Some p)
  have "n \<noteq> r" using ts Some by (auto simp: tree_struct_def)
  then have p: "p \<in> set A" using ts n Some by (auto simp: tree_struct_def)
  show ?thesis
    using n Some set_children_pruned[OF ts p, of R n]
    by (simp add: remove_node_def pruned_fields(1) pruned_children split: sum.split)
qed

lemma forEach_remove_pruned:
  assumes ts: "tree_struct s1 A r"
  shows "set ns \<subseteq> set A \<Longrightarrow> \<exists>R'. fst (forEach_remove P (pruned s1 A R) ns) = pruned s1 A R'"
proof (induction ns arbitrary: R)
  case Nil
  show ?case by auto
next
  case (Cons n ns)
  have n: "n \<in> set A" and ns: "set ns \<subseteq> set A" using Cons.prems by simp_all
  show ?case
  proof (cases "remove_node P (pruned s1 A R) n")
    case (Inl e)
    then show ?thesis by auto
  next
    case (Inr s')
    then obtain R1 where "s' = pruned s1 A R1"
      unfolding remove_node_step[OF ts n]
      by (auto split: sum.splits if_splits option.splits)
    with Inr Cons.IH[OF ns, of R1] show ?thesis by simp
  qed
qed

text \<open>With a predicate that does not throw, only the root can end the loop, childless.\<close>

lemma forEach_remove_error:
  assumes ts: "tree_struct s1 A r"
  shows "set ns \<subseteq> set A \<Longrightarrow>
    forEach_remove (\<lambda>s a. Inr (Q s a)) (pruned s1 A R) ns = (s2, Some e) \<Longrightarrow>
    e = TypeError \<and> children (nodes s2 r) = []"
proof (induction ns arbitrary: R)
  case Nil
  then show ?case by simp
next
  case (Cons n ns)
  have n: "n \<in> set A" and ns: "set ns \<subseteq> set A" using Cons.prems by simp_all
  show ?case
  proof (cases "remove_node (\<lambda>s a. Inr (Q s a)) (pruned s1 A R) n")
    case (Inl e')
    then have s2: "s2 = pruned s1 A R" "e = e'" using Cons.prems(2) by simp_all
    from Inl have e': "e' = TypeError" and emp: "filter (\<lambda>c. c \<notin> R) (children (nodes s1 n)) = []"
      and par: "parent (nodes s1 n) = None"
      unfolding remove_node_step[OF ts n]
      by (auto split: if_splits option.splits)
    have "n = r" using ts n par by (auto simp: tree_struct_def)
    then show ?thesis using s2 e' emp n by (simp add: pruned_children)
  next
    case (Inr s')
    then obtain R1 where "s' = pruned s1 A R1"
      unfolding remove_node_step[OF ts n]
      by (auto split: if_splits option.splits)
    with Inr Cons.IH[OF ns, of R1] Cons.prems(2) show ?thesis by simp
  qed
qed

lemma bfs_order_set: "set (bfs_order ts) = set (concat (map addrs ts))"
proof (induction ts rule: bfs_order.induct)
  case 1
  show ?case by simp
next
  case (2 t ts)
  obtain a ks where t: "t = AT a ks" by (cases t)
  show ?case using 2 by (auto simp: t)
qed

lemma bfs_order_single_set: "set (rev (bfs_order [u])) = set (addrs u)"
  using bfs_order_set[of "[u]"] by (simp del: bfs_order.simps)

lemma filter_node_unfold:
  assumes cl: "clone fuel s [this] None = Some (s1, [troot u])"
    and u: "rep s1 u" "parents_ok s1 None u" "distinct (addrs u)" "tsize u \<le> fuel"
  shows "\<exists>R r. forEach_remove P s1 (rev (bfs_order [u])) = (pruned s1 (addrs u) R, r) \<and>
     filter_node fuel s this P =
       Some (case r of
               Some e \<Rightarrow> Log_w e (pruned s1 (addrs u) R)
             | None \<Rightarrow> update_lines (pruned s1 (addrs u) R)
                         (flat_forest (tkids (prune_tree R u)) 0) 0,
             troot u)"
proof -
  let ?A = "addrs u"
  have ts: "tree_struct s1 ?A (troot u)"
    using u(1-3) by (rule tree_struct_of_rep)
  have bfs: "bfs_loop fuel s1 [troot u] [] = Some (bfs_order [u])"
    using bfs_loop_order[of s1 "[u]" fuel "[]"] u(1,4) by simp
  have sub: "set (rev (bfs_order [u])) \<subseteq> set ?A"
    by (simp only: bfs_order_single_set subset_refl)
  obtain s2 r where fe: "forEach_remove P s1 (rev (bfs_order [u])) = (s2, r)"
    by (cases "forEach_remove P s1 (rev (bfs_order [u]))")
  from forEach_remove_pruned[OF ts sub, of P "{}"] fe
  obtain R where s2: "s2 = pruned s1 ?A R"
    by (auto simp: pruned_empty)
  have res: "filter_node fuel s this P =
       Some (case r of
               Some e \<Rightarrow> Log_w e (pruned s1 ?A R)
             | None \<Rightarrow> update_lines (pruned s1 ?A R) (flat_forest (tkids (prune_tree R u)) 0) 0,
             troot u)"
  proof (cases r)
    case (Some e)
    then show ?thesis using cl bfs fe s2 by (simp add: filter_node_def)
  next
    case None
    have "rep (pruned s1 ?A R) (prune_tree R u)"
      using u(1) by (intro rep_pruned) simp_all
    moreover have "tsize (prune_tree R u) \<le> fuel"
      using tsize_prune_tree[of R u] u(4) by simp
    ultimately have "flat fuel (pruned s1 ?A R) (troot u) = Some (flat_forest (tkids (prune_tree R u)) 0)"
      using flat_tree[of "pruned s1 ?A R" "prune_tree R u" fuel] by simp
    then show ?thesis using cl bfs fe s2 None by (simp add: filter_node_def)
  qed
  show ?thesis using fe s2 res by blast
qed

lemma tsize_same_shape: "same_shape t u \<Longrightarrow> tsize u = tsize t"
proof (induction t u rule: same_shape.induct)
  case (1 a ts b us)
  have "list_all2 (\<lambda>t u. tsize u = tsize t) ts us"
  proof (rule list.rel_mono_strong)
    show "list_all2 same_shape ts us" using 1(2) by simp
  next
    fix z yb assume "z \<in> set ts" "yb \<in> set us" "same_shape z yb"
    then show "tsize yb = tsize z" by (rule 1(1))
  qed
  then have "map tsize us = map tsize ts"
    by (induction ts us rule: list_all2_induct) simp_all
  then show ?case by simp
qed

lemma lines_after_update:
  assumes "rep s2 v" "distinct (addrs v)" "tsize v \<le> fuel"
  shows "flat fuel (update_lines s2 (flat_forest (tkids v) 0) 0) (troot v) = Some (flat_forest (tkids v) 0) \<and>
     map (\<lambda>g. Node.line (nodes (update_lines s2 (flat_forest (tkids v) 0) 0) (fst g))) (flat_forest (tkids v) 0)
       = map int [1..<Suc (length (flat_forest (tkids v) 0))]"
proof -
  let ?ff = "flat_forest (tkids v) 0"
  let ?s = "update_lines s2 ?ff 0"
  have "rep ?s v = rep s2 v"
    by (rule rep_cong) (simp add: update_lines_fields)
  then have f: "flat fuel ?s (troot v) = Some ?ff"
    using assms flat_tree[of ?s v fuel] by simp
  have "distinct (map fst ?ff)"
    using assms(2) by (cases v) (simp add: fst_flat_forest)
  then have "map (\<lambda>g. Node.line (nodes ?s (fst g))) ?ff = map (\<lambda>j. int j + 1) [0..<0 + length ?ff]"
    by (rule update_lines_lines)
  also have "\<dots> = map int (map Suc [0..<length ?ff])"
    by (simp add: comp_def)
  also have "map Suc [0..<length ?ff] = [1..<Suc (length ?ff)]"
    using map_Suc_upt[of 0 "length ?ff"] by simp
  finally show ?thesis using f by simp
qed

lemma kids_first_snoc:
  "kids_first s1 D (xs @ [x]) =
     (kids_first s1 D xs \<and> set (children (nodes s1 x)) \<subseteq> D \<union> set xs \<and> x \<notin> D \<union> set xs)"
  by (induction xs arbitrary: D) auto

lemma kids_first_bfs:
  "list_all (rep s1) ts \<Longrightarrow> distinct (concat (map addrs ts)) \<Longrightarrow>
   kids_first s1 {} (rev (bfs_order ts))"
proof (induction ts rule: bfs_order.induct)
  case 1
  show ?case by simp
next
  case (2 t ts)
  obtain a ks where t: "t = AT a ks" by (cases t)
  have r: "list_all (rep s1) (ts @ tkids t)" using 2(2) by (simp add: t)
  have d: "distinct (concat (map addrs (ts @ tkids t)))"
    using 2(3) by (auto simp: t)
  have ih: "kids_first s1 {} (rev (bfs_order (ts @ tkids t)))"
    using 2(1)[OF r d] .
  have ch: "children (nodes s1 a) = map troot ks" using 2(2) by (simp add: t)
  have "set (map troot ks) \<subseteq> set (concat (map addrs ks))"
    using troot_in_addrs by auto
  then have c1: "set (children (nodes s1 a)) \<subseteq> set (bfs_order (ts @ tkids t))"
    by (auto simp: ch bfs_order_set t)
  have c2: "a \<notin> set (bfs_order (ts @ tkids t))"
    using 2(3) by (auto simp: bfs_order_set t)
  show ?case
    using ih c1 c2 by (simp add: t kids_first_snoc)
qed

lemma forEach_remove_append:
  "forEach_remove P s (xs @ ys) =
     (case forEach_remove P s xs of
        (s', None) \<Rightarrow> forEach_remove P s' ys
      | (s', Some e) \<Rightarrow> (s', Some e))"
  by (induction xs arbitrary: s) (auto split: sum.splits)

lemma same_id_unique:
  assumes ts: "tree_struct s1 A r" and uid: "inj_on (\<lambda>x. nodeId (nodes s1 x)) (set A)"
    and n: "n \<in> set A" and par: "parent (nodes s1 n) = Some p"
  shows "p \<in> set A \<and> same_id s1 p n = {n}"
proof -
  have nr: "n \<noteq> r" using ts par by (auto simp: tree_struct_def)
  with ts n par have p: "p \<in> set A" and np: "n \<in> set (children (nodes s1 p))"
    by (auto simp: tree_struct_def)
  have "c = n" if "c \<in> set (children (nodes s1 p))" "nodeId (nodes s1 c) = nodeId (nodes s1 n)" for c
  proof -
    have "c \<in> set A" using ts p that(1) by (simp add: tree_struct_def)
    then show ?thesis using uid n that(2) by (simp add: inj_on_def)
  qed
  then have "same_id s1 p n = {n}" using np by (auto simp: same_id_def)
  then show ?thesis using p by simp
qed

lemma kids_first_split:
  "kids_first s1 D (ys @ m # zs) \<Longrightarrow>
   set (children (nodes s1 m)) \<subseteq> D \<union> set ys \<and> m \<notin> D \<union> set ys"
  by (induction ys arbitrary: D) auto

lemma snoc_decomp:
  "ys @ [n] = ys' @ m # zs \<Longrightarrow>
   (zs = [] \<and> ys' = ys \<and> m = n) \<or> (\<exists>zs'. zs = zs' @ [n] \<and> ys = ys' @ m # zs')"
  by (cases zs rule: rev_cases) auto

lemma pruned_Cons:
  "pruned s1 (a # A) R =
     (if a \<in> set A then pruned s1 A R
      else set_children (pruned s1 A R) a (filter (\<lambda>c. c \<notin> R) (children (nodes s1 a))))"
proof -
  have "nodes (pruned s1 (a # A) R) =
     nodes (if a \<in> set A then pruned s1 A R
      else set_children (pruned s1 A R) a (filter (\<lambda>c. c \<notin> R) (children (nodes s1 a))))"
    by (rule ext) (simp add: pruned_def set_children_def)
  then show ?thesis
    by (simp add: pruned_def set_children_def)
qed

lemma pruned_Nil: "pruned s1 [] R = s1"
  by (simp add: pruned_def)

lemma pruned_blind: "children_blind P \<Longrightarrow> P (pruned s1 A R) x = P s1 x"
  by (induction A) (simp_all add: pruned_Nil pruned_Cons children_blind_def)

lemma forEach_remove_trace:
  assumes ts: "tree_struct s1 A r" and uid: "inj_on (\<lambda>x. nodeId (nodes s1 x)) (set A)"
  shows "set xs \<subseteq> set A - {r} \<Longrightarrow> kids_first s1 {} xs \<Longrightarrow>
    \<exists>R. forEach_remove (\<lambda>s a. Inr (P s a)) s1 xs = (pruned s1 A R, None) \<and> R \<subseteq> set xs \<and>
        (\<forall>ys n zs. xs = ys @ n # zs \<longrightarrow>
           (\<exists>Rn. forEach_remove (\<lambda>s a. Inr (P s a)) s1 ys = (pruned s1 A Rn, None) \<and>
              (n \<in> R) = (\<not> P (pruned s1 A Rn) n \<and> children (nodes (pruned s1 A Rn) n) = []) \<and>
              filter (\<lambda>c. c \<notin> R) (children (nodes s1 n)) = children (nodes (pruned s1 A Rn) n)))"
proof (induction xs rule: rev_induct)
  case Nil
  show ?case
    by (intro exI[of _ "{}"]) (simp add: pruned_empty)
next
  case (snoc n ys)
  let ?P = "\<lambda>s a. Inr (P s a)"
  have n: "n \<in> set A" "n \<noteq> r" and ysA: "set ys \<subseteq> set A - {r}"
    using snoc.prems(1) by auto
  have kf: "kids_first s1 {} ys" and kn: "set (children (nodes s1 n)) \<subseteq> set ys" "n \<notin> set ys"
    using snoc.prems(2) by (simp_all add: kids_first_snoc)
  from snoc.IH[OF ysA kf] obtain R where
    run: "forEach_remove ?P s1 ys = (pruned s1 A R, None)" and RD: "R \<subseteq> set ys"
    and old: "\<And>ys' m zs'. ys = ys' @ m # zs' \<Longrightarrow>
           (\<exists>Rn. forEach_remove ?P s1 ys' = (pruned s1 A Rn, None) \<and>
              (m \<in> R) = (\<not> P (pruned s1 A Rn) m \<and> children (nodes (pruned s1 A Rn) m) = []) \<and>
              filter (\<lambda>c. c \<notin> R) (children (nodes s1 m)) = children (nodes (pruned s1 A Rn) m))"
    by blast
  from ts n obtain p where par: "parent (nodes s1 n) = Some p"
    by (auto simp: tree_struct_def)
  from same_id_unique[OF ts uid n(1) par] have sid: "same_id s1 p n = {n}"
    by simp
  define prune where
    "prune = (\<not> P (pruned s1 A R) n \<and> filter (\<lambda>c. c \<notin> R) (children (nodes s1 n)) = [])"
  define R1 where "R1 = (if prune then insert n R else R)"
  have step: "remove_node ?P (pruned s1 A R) n = Inr (pruned s1 A R1)"
    unfolding remove_node_step[OF ts n(1)]
    by (simp add: par sid R1_def prune_def)
  have run1: "forEach_remove ?P s1 (ys @ [n]) = (pruned s1 A R1, None)"
    by (simp add: forEach_remove_append run step)
  have sub1: "R1 \<subseteq> set (ys @ [n])"
    using RD by (auto simp: R1_def)
  have nR: "n \<notin> R" using RD kn(2) by blast
  have keep: "filter (\<lambda>c. c \<notin> R1) (children (nodes s1 m)) = filter (\<lambda>c. c \<notin> R) (children (nodes s1 m))"
    if "n \<notin> set (children (nodes s1 m))" for m
    using that by (intro filter_cong[OF refl]) (auto simp: R1_def)
  have chn: "children (nodes (pruned s1 A R) n) = filter (\<lambda>c. c \<notin> R) (children (nodes s1 n))"
    using n(1) by (rule pruned_children)
  have new: "\<exists>Rn. forEach_remove ?P s1 ys' = (pruned s1 A Rn, None) \<and>
              (m \<in> R1) = (\<not> P (pruned s1 A Rn) m \<and> children (nodes (pruned s1 A Rn) m) = []) \<and>
              filter (\<lambda>c. c \<notin> R1) (children (nodes s1 m)) = children (nodes (pruned s1 A Rn) m)"
    if dec: "ys @ [n] = ys' @ m # zs" for ys' m zs
  proof -
    from snoc_decomp[OF dec] show ?thesis
    proof
      assume "zs = [] \<and> ys' = ys \<and> m = n"
      then have e: "ys' = ys" "m = n" by simp_all
      have "n \<notin> set (children (nodes s1 n))" using kn by blast
      then have k: "filter (\<lambda>c. c \<notin> R1) (children (nodes s1 n)) = children (nodes (pruned s1 A R) n)"
        using keep[of n] chn by simp
      have "(n \<in> R1) = (\<not> P (pruned s1 A R) n \<and> children (nodes (pruned s1 A R) n) = [])"
        using nR by (simp add: R1_def prune_def chn)
      with run k show ?thesis unfolding e by blast
    next
      assume "\<exists>zs'. zs = zs' @ [n] \<and> ys = ys' @ m # zs'"
      then obtain zs' where ys: "ys = ys' @ m # zs'" by blast
      from old[OF ys] obtain Rn where
        o: "forEach_remove ?P s1 ys' = (pruned s1 A Rn, None)"
        "(m \<in> R) = (\<not> P (pruned s1 A Rn) m \<and> children (nodes (pruned s1 A Rn) m) = [])"
        "filter (\<lambda>c. c \<notin> R) (children (nodes s1 m)) = children (nodes (pruned s1 A Rn) m)"
        by blast
      have "m \<in> set ys" by (simp add: ys)
      then have mn: "m \<noteq> n" using kn(2) by blast
      have "set (children (nodes s1 m)) \<subseteq> set ys'"
        using kids_first_split[of s1 "{}" ys' m zs'] kf by (simp add: ys)
      then have "n \<notin> set (children (nodes s1 m))"
        using kn(2) by (auto simp: ys)
      then have k: "filter (\<lambda>c. c \<notin> R1) (children (nodes s1 m)) = children (nodes (pruned s1 A Rn) m)"
        using keep[of m] o(3) by simp
      have "(m \<in> R1) = (m \<in> R)" using mn by (simp add: R1_def)
      with o(1,2) k show ?thesis by blast
    qed
  qed
  show ?case
    using run1 sub1 new by blast
qed

lemma copy_ids:
  "list_all2 (copy_of s s1) xs ys \<Longrightarrow>
   map (\<lambda>b. nodeId (nodes s1 b)) ys = map (\<lambda>a. nodeId (nodes s a)) xs"
  by (induction xs ys rule: list_all2_induct) (simp_all add: copy_of_def Let_def)

lemma filter_result_extends:
  assumes e: "extends s s1" and A: "set A \<subseteq> {next_node s..<next_node s1}"
    and ff: "fst ` set ff \<subseteq> set A"
  shows "extends s (update_lines (pruned s1 A R) ff 0)" "extends s (Log_w e' (pruned s1 A R))"
proof -
  have out: "nodes (pruned s1 A R) a = nodes s a" if "a < next_node s" for a
  proof -
    have "a \<notin> set A" using A that by auto
    then show ?thesis using e that by (simp add: pruned_outside extends_iff)
  qed
  have "nodes (update_lines (pruned s1 A R) ff 0) a = nodes s a" if "a < next_node s" for a
  proof -
    have "a \<notin> set A" using A that by auto
    then have "a \<notin> fst ` set ff" using ff by blast
    then show ?thesis using out[OF that] by (simp add: update_lines_frame)
  qed
  then show "extends s (update_lines (pruned s1 A R) ff 0)"
    using e by (simp add: extends_iff update_lines_fields pruned_fields)
  show "extends s (Log_w e' (pruned s1 A R))"
    using e out by (simp add: extends_iff Log_w_def pruned_fields)
qed

lemma fst_flat_prune_subset: "fst ` set (flat_forest (tkids (prune_tree R u)) 0) \<subseteq> set (addrs u)"
proof -
  have "fst ` set (flat_forest (tkids (prune_tree R u)) 0)
      = set (concat (map addrs (tkids (prune_tree R u))))"
    using fst_flat_forest[of "tkids (prune_tree R u)" 0] by (metis set_map)
  also have "\<dots> \<subseteq> set (addrs (prune_tree R u))"
    by (cases "prune_tree R u") auto
  also have "\<dots> \<subseteq> set (addrs u)" by (rule addrs_prune_tree_subset)
  finally show ?thesis .
qed

text \<open>
  C1, amended.  For a tree in the store whose nodes have different ids, and a predicate
  that returns a boolean at every node, \<open>filter\<close> returns with enough fuel; it returns
  the root of a clone (a tree of the same shape that the store holds after cloning, made of
  new objects that are copies of the nodes at the same positions), and no object that
  existed before the call is changed.  In the result
  the children of every node of the clone are some of the children it had after cloning, in
  the same order.  Every child of a node of the clone has its turn in the reverse
  breadth-first order, after all its own children: it is taken out of its parent's children
  if and only if, in the store at that moment, it fails the predicate and has no child left,
  and its children at that moment are its children in the result.  So a node with a child
  left is never taken out.  For a predicate that does not read \<open>children\<close> fields, the
  children of every node in the result are the children it had after cloning that satisfy
  the predicate or have a child left.  The root of the clone is in no node's children and is
  returned in every case.
\<close>

theorem C1_filter_prunes_dead_leaves:
  assumes "wf_tree s t" and "tsize t \<le> fuel"
    and "distinct (map (\<lambda>a. nodeId (nodes s a)) (addrs t))"
  shows "\<exists>s1 u s'. clone fuel s [troot t] None = Some (s1, [troot u]) \<and>
           same_shape t u \<and> rep s1 u \<and> parents_ok s1 None u \<and>
           list_all2 (copy_of s s1) (addrs t) (addrs u) \<and>
           addrs u = [next_node s..<next_node s1] \<and>
           filter_node fuel s (troot t) (\<lambda>s a. Inr (P s a)) = Some (s', troot u) \<and>
           extends s s' \<and>
           (\<forall>x\<in>set (addrs u).
              children (nodes s' x) =
                filter (\<lambda>c. c \<in> set (children (nodes s' x))) (children (nodes s1 x))) \<and>
           (\<forall>x\<in>set (addrs u). \<forall>c\<in>set (children (nodes s1 x)).
              \<exists>ys zs sc. rev (bfs_order [u]) = ys @ c # zs \<and>
                 forEach_remove (\<lambda>s a. Inr (P s a)) s1 ys = (sc, None) \<and>
                 children (nodes s' c) = children (nodes sc c) \<and>
                 (c \<notin> set (children (nodes s' x))) = (\<not> P sc c \<and> children (nodes sc c) = [])) \<and>
           (children_blind P \<longrightarrow>
              (\<forall>x\<in>set (addrs u).
                 children (nodes s' x) =
                   filter (\<lambda>c. P s1 c \<or> children (nodes s' c) \<noteq> []) (children (nodes s1 x))))"
proof -
  from clone_tree[OF assms(1,2)] obtain s1 u where
    cl: "clone fuel s [troot t] None = Some (s1, [troot u])" and sh: "same_shape t u"
    and rp: "rep s1 u" and po: "parents_ok s1 None u"
    and ad: "addrs u = [next_node s..<next_node s1]"
    and cp: "list_all2 (copy_of s s1) (addrs t) (addrs u)"
    and ex: "extends s s1"
    by blast
  let ?A = "addrs u" and ?r = "troot u"
  let ?P = "\<lambda>s a. Inr (P s a)"
  have d: "distinct ?A" by (simp add: ad)
  have sz: "tsize u \<le> fuel" using assms(2) tsize_same_shape[OF sh] by simp
  have ts: "tree_struct s1 ?A ?r" using rp po d by (rule tree_struct_of_rep)
  have "distinct (map (\<lambda>b. nodeId (nodes s1 b)) ?A)"
    using assms(3) copy_ids[OF cp] by simp
  then have uid: "inj_on (\<lambda>x. nodeId (nodes s1 x)) (set ?A)"
    by (simp add: distinct_map)
  define ns where "ns = rev (bfs_order (tkids u))"
  have order: "rev (bfs_order [u]) = ns @ [?r]" by (simp add: ns_def)
  have Au: "?A = ?r # concat (map addrs (tkids u))" by (cases u) simp
  have "?r \<notin> set (concat (map addrs (tkids u)))"
    using d by (subst (asm) Au) simp
  moreover have "set ?A = insert ?r (set (concat (map addrs (tkids u))))"
    by (subst Au) simp
  ultimately have nsset: "set ns = set ?A - {?r}"
    by (simp add: ns_def bfs_order_set)
  have kf: "kids_first s1 {} ns"
    unfolding ns_def
  proof (rule kids_first_bfs)
    show "list_all (rep s1) (tkids u)" using rp by (cases u) simp
    show "distinct (concat (map addrs (tkids u)))" using d by (subst (asm) Au) simp
  qed
  from forEach_remove_trace[OF ts uid _ kf, of P] nsset
  obtain R' where l1: "forEach_remove ?P s1 ns = (pruned s1 ?A R', None)"
    and trace: "\<And>ys n zs. ns = ys @ n # zs \<Longrightarrow>
           (\<exists>Rn. forEach_remove ?P s1 ys = (pruned s1 ?A Rn, None) \<and>
              (n \<in> R') = (\<not> P (pruned s1 ?A Rn) n \<and> children (nodes (pruned s1 ?A Rn) n) = []) \<and>
              filter (\<lambda>c. c \<notin> R') (children (nodes s1 n)) = children (nodes (pruned s1 ?A Rn) n))"
    by blast
  have rA: "?r \<in> set ?A" by (rule troot_in_addrs)
  have pr: "parent (nodes s1 ?r) = None" using ts by (simp add: tree_struct_def)
  have "fst (forEach_remove ?P (pruned s1 ?A R') [?r]) = pruned s1 ?A R'"
    by (simp add: remove_node_step[OF ts rA] pr)
  then have l2: "fst (forEach_remove ?P s1 (rev (bfs_order [u]))) = pruned s1 ?A R'"
    using l1 by (simp only: order forEach_remove_append) simp
  from filter_node_unfold[OF cl rp po d sz, of ?P] obtain R r where
    fe: "forEach_remove ?P s1 (rev (bfs_order [u])) = (pruned s1 ?A R, r)"
    and res: "filter_node fuel s (troot t) ?P =
       Some (case r of
               Some e \<Rightarrow> Log_w e (pruned s1 ?A R)
             | None \<Rightarrow> update_lines (pruned s1 ?A R) (flat_forest (tkids (prune_tree R u)) 0) 0,
             ?r)"
    by blast
  have eq: "pruned s1 ?A R = pruned s1 ?A R'" using fe l2 by simp
  define s' where "s' = (case r of
               Some e \<Rightarrow> Log_w e (pruned s1 ?A R)
             | None \<Rightarrow> update_lines (pruned s1 ?A R) (flat_forest (tkids (prune_tree R u)) 0) 0)"
  have res': "filter_node fuel s (troot t) ?P = Some (s', ?r)"
    using res by (simp add: s'_def)
  have Asub: "set ?A \<subseteq> {next_node s..<next_node s1}" by (simp add: ad)
  have ext: "extends s s'"
  proof (cases r)
    case None
    then show ?thesis
      unfolding s'_def using filter_result_extends(1)[OF ex Asub fst_flat_prune_subset] by simp
  next
    case (Some e)
    then show ?thesis
      unfolding s'_def using filter_result_extends(2)[OF ex Asub fst_flat_prune_subset] by simp
  qed
  have ch': "children (nodes s' x) = filter (\<lambda>c. c \<notin> R') (children (nodes s1 x))"
    if "x \<in> set ?A" for x
  proof -
    have "children (nodes s' x) = children (nodes (pruned s1 ?A R) x)"
      unfolding s'_def by (cases r) (simp_all add: update_lines_fields Log_w_def)
    then show ?thesis using that by (simp add: eq pruned_children)
  qed
  have c0: "children (nodes s' x) =
                filter (\<lambda>c. c \<in> set (children (nodes s' x))) (children (nodes s1 x))"
    if x: "x \<in> set ?A" for x
    unfolding ch'[OF x] by (rule filter_cong[OF refl]) simp
  have moment: "\<exists>ys zs Rn. rev (bfs_order [u]) = ys @ c # zs \<and>
                 forEach_remove ?P s1 ys = (pruned s1 ?A Rn, None) \<and>
                 children (nodes s' c) = children (nodes (pruned s1 ?A Rn) c) \<and>
                 (c \<notin> set (children (nodes s' x))) =
                   (\<not> P (pruned s1 ?A Rn) c \<and> children (nodes (pruned s1 ?A Rn) c) = [])"
    if x: "x \<in> set ?A" and c: "c \<in> set (children (nodes s1 x))" for x c
  proof -
    have cA: "c \<in> set ?A" "c \<noteq> ?r" using ts x c by (simp_all add: tree_struct_def)
    then have "c \<in> set ns" by (simp add: nsset)
    then obtain ys zs where dec: "ns = ys @ c # zs" by (auto dest: split_list)
    from trace[OF dec] obtain Rn where
      t: "forEach_remove ?P s1 ys = (pruned s1 ?A Rn, None)"
      "(c \<in> R') = (\<not> P (pruned s1 ?A Rn) c \<and> children (nodes (pruned s1 ?A Rn) c) = [])"
      "filter (\<lambda>c. c \<notin> R') (children (nodes s1 c)) = children (nodes (pruned s1 ?A Rn) c)"
      by blast
    have "rev (bfs_order [u]) = ys @ c # (zs @ [?r])" unfolding order dec by simp
    moreover have "children (nodes s' c) = children (nodes (pruned s1 ?A Rn) c)"
      using ch'[OF cA(1)] t(3) by simp
    moreover have "(c \<notin> set (children (nodes s' x))) = (c \<in> R')"
      using c by (simp add: ch'[OF x])
    ultimately show ?thesis using t(1,2) by blast
  qed
  have c1: "\<exists>ys zs sc. rev (bfs_order [u]) = ys @ c # zs \<and>
                 forEach_remove ?P s1 ys = (sc, None) \<and>
                 children (nodes s' c) = children (nodes sc c) \<and>
                 (c \<notin> set (children (nodes s' x))) = (\<not> P sc c \<and> children (nodes sc c) = [])"
    if x: "x \<in> set ?A" and c: "c \<in> set (children (nodes s1 x))" for x c
    using moment[OF x c] by blast
  have c2: "children (nodes s' x) =
                   filter (\<lambda>c. P s1 c \<or> children (nodes s' c) \<noteq> []) (children (nodes s1 x))"
    if blind: "children_blind P" and x: "x \<in> set ?A" for x
  proof -
    have "(c \<in> set (children (nodes s' x))) = (P s1 c \<or> children (nodes s' c) \<noteq> [])"
      if c: "c \<in> set (children (nodes s1 x))" for c
    proof -
      from moment[OF x c] obtain Rn where
        "children (nodes s' c) = children (nodes (pruned s1 ?A Rn) c)"
        "(c \<notin> set (children (nodes s' x))) =
           (\<not> P (pruned s1 ?A Rn) c \<and> children (nodes (pruned s1 ?A Rn) c) = [])"
        by blast
      then show ?thesis using pruned_blind[OF blind, of s1 ?A Rn c] by auto
    qed
    then have "filter (\<lambda>c. c \<in> set (children (nodes s' x))) (children (nodes s1 x))
        = filter (\<lambda>c. P s1 c \<or> children (nodes s' c) \<noteq> []) (children (nodes s1 x))"
      by (intro filter_cong[OF refl])
    then show ?thesis using c0[OF x] by simp
  qed
  show ?thesis
    using cl sh rp po cp ad res' ext c0 c1 c2 by blast
qed

lemma example_ids: "distinct (map (\<lambda>a. nodeId (nodes example_state a)) (addrs example_tree))"
  by code_simp

lemma is_subtask_blind: "children_blind is_subtask"
  by (simp add: children_blind_def is_subtask_def set_children_def)

text \<open>
  C1 as the spec states it: every retained node satisfies the predicate or has a retained
  descendant.  With a predicate that holds nowhere, \<open>filter\<close> on the example returns the
  clone of the root (address 6) with no children: a retained node that neither satisfies
  the predicate nor has a descendant.
\<close>

theorem C1_root_kept_counterexample:
  "filter_node 5 example_state 0 (\<lambda>s a. Inr (nowhere s a)) \<noteq> None \<and>
   snd (the (filter_node 5 example_state 0 (\<lambda>s a. Inr (nowhere s a)))) = 6 \<and>
   children (nodes (fst (the (filter_node 5 example_state 0 (\<lambda>s a. Inr (nowhere s a))))) 6) = [] \<and>
   \<not> nowhere (fst (the (filter_node 5 example_state 0 (\<lambda>s a. Inr (nowhere s a))))) 6"
  by code_simp

theorem C1_filter_prunes_dead_leaves_witness:
  "wf_tree example_state example_tree \<and> tsize example_tree \<le> 5 \<and>
   distinct (map (\<lambda>a. nodeId (nodes example_state a)) (addrs example_tree)) \<and>
   children_blind is_subtask \<and>
   (\<exists>s1 u s'. clone 5 example_state [0] None = Some (s1, [troot u]) \<and>
      same_shape example_tree u \<and> rep s1 u \<and>
      addrs u = [6..<next_node s1] \<and>
      filter_node 5 example_state 0 (\<lambda>s a. Inr (is_subtask s a)) = Some (s', troot u) \<and>
      extends example_state s' \<and>
      (\<forall>x\<in>set (addrs u).
         children (nodes s' x) =
           filter (\<lambda>c. is_subtask s1 c \<or> children (nodes s' c) \<noteq> []) (children (nodes s1 x))))"
proof -
  have r: "troot example_tree = 0" "next_node example_state = 6"
    by (simp_all add: example_tree_def example_state_def)
  from C1_filter_prunes_dead_leaves[OF example_wf example_size example_ids, of is_subtask]
  obtain s1 u s' where
    "clone 5 example_state [0] None = Some (s1, [troot u])"
    "same_shape example_tree u" "rep s1 u"
    "addrs u = [6..<next_node s1]"
    "filter_node 5 example_state 0 (\<lambda>s a. Inr (is_subtask s a)) = Some (s', troot u)"
    "extends example_state s'"
    "children_blind is_subtask \<longrightarrow>
       (\<forall>x\<in>set (addrs u).
          children (nodes s' x) =
            filter (\<lambda>c. is_subtask s1 c \<or> children (nodes s' c) \<noteq> []) (children (nodes s1 x)))"
    unfolding r by blast
  then show ?thesis
    using example_wf example_size example_ids is_subtask_blind by blast
qed

text \<open>
  C3 as the spec states it: for every predicate, the lines of the result are 1, 2, 3, ...
  With a predicate that throws at the root and holds at the note only, \<open>filter\<close> on the
  example takes out the subtask, the task and the heading, then the predicate throws: the
  result is the clone of the root with the clone of the note (address 10) as its one child,
  and the note still has its old line 4.
\<close>

theorem C3_lines_not_renumbered_counterexample:
  "filter_node 5 example_state 0 throws_at_root \<noteq> None \<and>
   snd (the (filter_node 5 example_state 0 throws_at_root)) = 6 \<and>
   children (nodes (fst (the (filter_node 5 example_state 0 throws_at_root))) 6) = [10] \<and>
   flat 5 (fst (the (filter_node 5 example_state 0 throws_at_root))) 6 = Some [(10, 0)] \<and>
   Node.line (nodes (fst (the (filter_node 5 example_state 0 throws_at_root))) 10) = 4"
  by code_simp

text \<open>
  C3, amended.  For a tree in the store and a predicate that returns a boolean at every
  node, \<open>filter\<close> returns with enough fuel, and flattening its result again gives nodes
  whose line numbers, in depth-first pre-order with the root left out, are 1, 2, 3, ...
\<close>

theorem C3_filter_lines_contiguous:
  assumes "wf_tree s t" and "tsize t \<le> fuel"
  shows "\<exists>s' c ff. filter_node fuel s (troot t) (\<lambda>s a. Inr (P s a)) = Some (s', c) \<and>
           flat fuel s' c = Some ff \<and>
           map (\<lambda>f. Node.line (nodes s' (fst f))) ff = map int [1..<Suc (length ff)]"
proof -
  from clone_tree[OF assms] obtain s1 u where
    cl: "clone fuel s [troot t] None = Some (s1, [troot u])" and sh: "same_shape t u"
    and rp: "rep s1 u" and po: "parents_ok s1 None u"
    and ad: "addrs u = [next_node s..<next_node s1]"
    by blast
  have d: "distinct (addrs u)" by (simp add: ad)
  have sz: "tsize u \<le> fuel" using assms(2) tsize_same_shape[OF sh] by simp
  let ?P = "\<lambda>s a. Inr (P s a)"
  let ?A = "addrs u"
  from filter_node_unfold[OF cl rp po d sz, of ?P] obtain R r where
    fe: "forEach_remove ?P s1 (rev (bfs_order [u])) = (pruned s1 ?A R, r)"
    and res: "filter_node fuel s (troot t) ?P =
       Some (case r of
               Some e \<Rightarrow> Log_w e (pruned s1 ?A R)
             | None \<Rightarrow> update_lines (pruned s1 ?A R) (flat_forest (tkids (prune_tree R u)) 0) 0,
             troot u)"
    by blast
  have ts: "tree_struct s1 ?A (troot u)"
    using rp po d by (rule tree_struct_of_rep)
  show ?thesis
  proof (cases r)
    case (Some e)
    have sub: "set (rev (bfs_order [u])) \<subseteq> set ?A"
      by (simp only: bfs_order_single_set subset_refl)
    have fe': "forEach_remove ?P (pruned s1 ?A {}) (rev (bfs_order [u])) = (pruned s1 ?A R, Some e)"
      using fe Some by (simp only: pruned_empty)
    have "children (nodes (pruned s1 ?A R) (troot u)) = []"
      using forEach_remove_error[OF ts sub fe'] by simp
    then have "flat fuel (Log_w e (pruned s1 ?A R)) (troot u) = Some []"
      by (simp add: flat_def Log_w_def)
    then show ?thesis using res Some by simp
  next
    case None
    let ?v = "prune_tree R u"
    have "rep (pruned s1 ?A R) ?v" using rp by (intro rep_pruned) simp_all
    moreover have "distinct (addrs ?v)" using d by (rule distinct_prune_tree)
    moreover have "tsize ?v \<le> fuel" using tsize_prune_tree[of R u] sz by simp
    ultimately show ?thesis
      using lines_after_update[of "pruned s1 ?A R" ?v fuel] res None by simp
  qed
qed

theorem C3_filter_lines_contiguous_witness:
  "wf_tree example_state example_tree \<and> tsize example_tree \<le> 5 \<and>
   (\<exists>s' c ff. filter_node 5 example_state 0 (\<lambda>s a. Inr (is_subtask s a)) = Some (s', c) \<and>
      flat 5 s' c = Some ff \<and>
      map (\<lambda>f. Node.line (nodes s' (fst f))) ff = map int [1..<Suc (length ff)])"
proof -
  have r: "troot example_tree = 0"
    by (simp add: example_tree_def)
  from C3_filter_lines_contiguous[OF example_wf example_size, of is_subtask] show ?thesis
    using example_wf example_size unfolding r by blast
qed

section \<open>Predicates that throw\<close>



lemma forEach_remove_throw:
  "forEach_remove P s1 xs = (s2, None) \<Longrightarrow> P s2 n = Inl e \<Longrightarrow>
   forEach_remove P s1 (xs @ n # ys) = (s2, Some e)"
  by (simp add: forEach_remove_append remove_node_def)

text \<open>
  C7, amended.  \<open>find\<close> on a tree in the store returns with enough fuel; it examines the
  nodes in level order, left to right, and returns the first that satisfies the predicate,
  or \<open>null\<close> when none does; when the predicate throws at a node before that, the
  error is logged, the search ends there and the result is \<open>null\<close>.  \<open>filter\<close> returns
  the root of its clone (a tree of the same shape in the store, made of new objects that are
  copies of the nodes at the same positions) whatever the predicate does, and leaves every
  earlier object as it was; it logs nothing or one error, and when it has logged one, no line number has been
  assigned.  When the predicate throws at a node, in the store as it is after the nodes
  before it have been handled, \<open>filter\<close> logs that error and returns the clone as it is at
  that moment: the nodes after it are not examined.
\<close>

theorem C7_predicate_errors_end_the_traversal:
  assumes "wf_tree s t" and "tsize t \<le> fuel"
  shows "find_node fuel s (troot t) P =
           Some (case scan (P s) (level_order [t]) of
                   Inl e \<Rightarrow> (Log_w e s, None)
                 | Inr r \<Rightarrow> (s, r)) \<and>
         (\<exists>s1 u s'. clone fuel s [troot t] None = Some (s1, [troot u]) \<and>
            same_shape t u \<and> rep s1 u \<and> parents_ok s1 None u \<and>
            list_all2 (copy_of s s1) (addrs t) (addrs u) \<and>
            addrs u = [next_node s..<next_node s1] \<and>
            filter_node fuel s (troot t) P = Some (s', troot u) \<and>
            extends s s' \<and>
            (warnings s' = warnings s \<or>
             (\<exists>e. warnings s' = warnings s @ [e] \<and>
                  (\<forall>x. Node.line (nodes s' x) = Node.line (nodes s1 x)))) \<and>
            (\<forall>xs n ys s2 e.
               rev (bfs_order [u]) = xs @ n # ys \<and> forEach_remove P s1 xs = (s2, None) \<and>
               P s2 n = Inl e \<longrightarrow>
               filter_node fuel s (troot t) P = Some (Log_w e s2, troot u)))"
proof
  have "rep s t" using assms(1) by (simp add: wf_tree_def)
  then show "find_node fuel s (troot t) P =
           Some (case scan (P s) (level_order [t]) of
                   Inl e \<Rightarrow> (Log_w e s, None)
                 | Inr r \<Rightarrow> (s, r))"
    using assms(2) by (rule find_node_scan)
next
  from clone_tree[OF assms] obtain s1 u where
    cl: "clone fuel s [troot t] None = Some (s1, [troot u])" and sh: "same_shape t u"
    and rp: "rep s1 u" and po: "parents_ok s1 None u"
    and ad: "addrs u = [next_node s..<next_node s1]"
    and cp: "list_all2 (copy_of s s1) (addrs t) (addrs u)"
    and ex: "extends s s1" and w: "warnings s1 = warnings s"
    by blast
  let ?A = "addrs u"
  have d: "distinct ?A" by (simp add: ad)
  have sz: "tsize u \<le> fuel" using assms(2) tsize_same_shape[OF sh] by simp
  from filter_node_unfold[OF cl rp po d sz, of P] obtain R r where
    fe: "forEach_remove P s1 (rev (bfs_order [u])) = (pruned s1 ?A R, r)"
    and res: "filter_node fuel s (troot t) P =
       Some (case r of
               Some e \<Rightarrow> Log_w e (pruned s1 ?A R)
             | None \<Rightarrow> update_lines (pruned s1 ?A R) (flat_forest (tkids (prune_tree R u)) 0) 0,
             troot u)"
    by blast
  define s' where "s' = (case r of
               Some e \<Rightarrow> Log_w e (pruned s1 ?A R)
             | None \<Rightarrow> update_lines (pruned s1 ?A R) (flat_forest (tkids (prune_tree R u)) 0) 0)"
  have res': "filter_node fuel s (troot t) P = Some (s', troot u)"
    using res by (simp add: s'_def)
  have Asub: "set ?A \<subseteq> {next_node s..<next_node s1}" by (simp add: ad)
  have ext: "extends s s'"
  proof (cases r)
    case None
    then show ?thesis
      unfolding s'_def using filter_result_extends(1)[OF ex Asub fst_flat_prune_subset] by simp
  next
    case (Some e)
    then show ?thesis
      unfolding s'_def using filter_result_extends(2)[OF ex Asub fst_flat_prune_subset] by simp
  qed
  have logged: "warnings s' = warnings s \<or>
             (\<exists>e. warnings s' = warnings s @ [e] \<and>
                  (\<forall>x. Node.line (nodes s' x) = Node.line (nodes s1 x)))"
  proof (cases r)
    case None
    then show ?thesis by (simp add: s'_def update_lines_fields pruned_fields w)
  next
    case (Some e)
    then have "warnings s' = warnings s @ [e]"
      "\<forall>x. Node.line (nodes s' x) = Node.line (nodes s1 x)"
      by (simp_all add: s'_def Log_w_def pruned_fields w)
    then show ?thesis by blast
  qed
  have bfs: "bfs_loop fuel s1 [troot u] [] = Some (bfs_order [u])"
    using bfs_loop_order[of s1 "[u]" fuel "[]"] rp sz by simp
  have stop: "filter_node fuel s (troot t) P = Some (Log_w e s2, troot u)"
    if "rev (bfs_order [u]) = xs @ n # ys \<and> forEach_remove P s1 xs = (s2, None) \<and> P s2 n = Inl e"
    for xs n ys s2 e
  proof -
    have "forEach_remove P s1 (rev (bfs_order [u])) = (s2, Some e)"
      using that forEach_remove_throw[of P s1 xs s2 n e ys] by simp
    then show ?thesis using cl bfs by (simp add: filter_node_def)
  qed
  show "\<exists>s1 u s'. clone fuel s [troot t] None = Some (s1, [troot u]) \<and>
            same_shape t u \<and> rep s1 u \<and> parents_ok s1 None u \<and>
            list_all2 (copy_of s s1) (addrs t) (addrs u) \<and>
            addrs u = [next_node s..<next_node s1] \<and>
            filter_node fuel s (troot t) P = Some (s', troot u) \<and>
            extends s s' \<and>
            (warnings s' = warnings s \<or>
             (\<exists>e. warnings s' = warnings s @ [e] \<and>
                  (\<forall>x. Node.line (nodes s' x) = Node.line (nodes s1 x)))) \<and>
            (\<forall>xs n ys s2 e.
               rev (bfs_order [u]) = xs @ n # ys \<and> forEach_remove P s1 xs = (s2, None) \<and>
               P s2 n = Inl e \<longrightarrow>
               filter_node fuel s (troot t) P = Some (Log_w e s2, troot u))"
    using cl sh rp po cp ad res' ext logged stop by blast
qed

text \<open>
  C7 as the spec states it: the traversal skips a node at which the predicate throws and
  continues.  On the example, \<open>find\<close> with a predicate that throws at the root and holds
  at the note returns \<open>null\<close>; \<open>filter\<close> with a predicate that throws at the subtask
  and holds nowhere returns the clone with the note (address 10) still among the root's
  children, a childless node that fails the predicate.
\<close>

theorem C7_skip_and_continue_counterexample:
  "find_node 5 example_state 0 throws_at_root \<noteq> None \<and>
   snd (the (find_node 5 example_state 0 throws_at_root)) = None \<and>
   warnings (fst (the (find_node 5 example_state 0 throws_at_root))) = [Thrown ''boom''] \<and>
   throws_at_root example_state 2 = Inr True \<and>
   filter_node 5 example_state 0 throws_at_subtask \<noteq> None \<and>
   snd (the (filter_node 5 example_state 0 throws_at_subtask)) = 6 \<and>
   warnings (fst (the (filter_node 5 example_state 0 throws_at_subtask))) = [Thrown ''boom''] \<and>
   children (nodes (fst (the (filter_node 5 example_state 0 throws_at_subtask))) 6) = [7, 10] \<and>
   children (nodes (fst (the (filter_node 5 example_state 0 throws_at_subtask))) 10) = [] \<and>
   throws_at_subtask (fst (the (filter_node 5 example_state 0 throws_at_subtask))) 10 = Inr False"
  by code_simp

theorem C7_predicate_errors_witness:
  "wf_tree example_state example_tree \<and> tsize example_tree \<le> 5 \<and>
   find_node 5 example_state 0 throws_at_root =
     Some (case scan (throws_at_root example_state) (level_order [example_tree]) of
             Inl e \<Rightarrow> (Log_w e example_state, None)
           | Inr r \<Rightarrow> (example_state, r)) \<and>
   (\<exists>s1 u s'. clone 5 example_state [0] None = Some (s1, [troot u]) \<and>
      same_shape example_tree u \<and> rep s1 u \<and>
      filter_node 5 example_state 0 throws_at_root = Some (s', troot u) \<and>
      extends example_state s')"
proof -
  have r: "troot example_tree = 0"
    by (simp add: example_tree_def)
  from C7_predicate_errors_end_the_traversal[OF example_wf example_size, of throws_at_root]
  show ?thesis
    using example_wf example_size unfolding r by blast
qed

section \<open>Properties of replace\<close>



end
